theory Spec2Isabelle
  imports Complex_Main
begin

section \<open>Python values and string primitives\<close>

text \<open>
  The program is one Python script, \<^verbatim>\<open>APIcallsmaspool_instantlyGS.py\<close>. Its strings are
  modelled as HOL strings; a character stands for a code point below 256, where the decimal
  digits (what \<^verbatim>\<open>\d\<close> matches) are exactly \<^verbatim>\<open>0\<close> to \<^verbatim>\<open>9\<close> and
  the white space that \<^verbatim>\<open>str.strip()\<close> removes is the set listed in \<open>is_space\<close>.
\<close>

definition is_digit :: "char \<Rightarrow> bool" where
  "is_digit c = (c \<in> set ''0123456789'')"

definition is_space :: "char \<Rightarrow> bool" where
  "is_space c = ((of_char c :: nat) \<in> set [9, 10, 11, 12, 13, 28, 29, 30, 31, 32, 133, 160])"

text \<open>\<^verbatim>\<open>s.strip()\<close>: white space removed at both ends.\<close>

definition strip :: "string \<Rightarrow> string" where
  "strip s = rev (dropWhile is_space (rev (dropWhile is_space s)))"

text \<open>\<^verbatim>\<open>s.startswith(p)\<close> and \<^verbatim>\<open>s.lstrip("0")\<close>.\<close>

definition startswith :: "string \<Rightarrow> string \<Rightarrow> bool" where
  "startswith s p = (take (length p) s = p)"

definition lstrip_zeros :: "string \<Rightarrow> string" where
  "lstrip_zeros s = dropWhile (\<lambda>c. c = CHR ''0'') s"

section \<open>Phone verification: number formatting and OTP extraction\<close>

text \<open>
  From \<^verbatim>\<open>handle_phone_verification\<close>, on \<^verbatim>\<open>formatted_number = str(phone_number)\<close>:
  \<^verbatim>\<open>
  if not formatted_number.startswith("+"):
      formatted_number = "+" + formatted_number.lstrip("0")
  \<close>
\<close>

definition format_number :: "string \<Rightarrow> string" where
  "format_number formatted_number =
     (if \<not> startswith formatted_number ''+'' then ''+'' @ lstrip_zeros formatted_number
      else formatted_number)"

text \<open>
  \<^verbatim>\<open>re.search(r"(\d{4,8})", sms_text)\<close>: the leftmost position at which the pattern
  matches; there the greedy quantifier takes as many digits as it can, at most 8, and the
  match needs at least 4. \<open>match_here\<close> is the attempt at one position, \<open>re_search\<close>
  moves through the positions from the left. The result is group 1 of the match.
\<close>

definition match_here :: "string \<Rightarrow> string option" where
  "match_here s =
     (let m = takeWhile is_digit (take 8 s) in if 4 \<le> length m then Some m else None)"

fun re_search :: "string \<Rightarrow> string option" where
  "re_search [] = match_here []"
| "re_search (c # cs) =
     (case match_here (c # cs) of Some m \<Rightarrow> Some m | None \<Rightarrow> re_search cs)"

text \<open>
  \<^verbatim>\<open>
  otp_match = re.search(r"(\d{4,8})", sms_text)
  if otp_match:
      otp_code = otp_match.group(1)
  else:
      otp_code = sms_text.strip()
  \<close>
\<close>

definition extract_otp :: "string \<Rightarrow> string" where
  "extract_otp sms_text =
     (case re_search sms_text of Some m \<Rightarrow> m | None \<Rightarrow> strip sms_text)"

section \<open>JSON values as Python sees them\<close>

text \<open>
  \<^verbatim>\<open>response.json()\<close> gives a Python value: \<^verbatim>\<open>None\<close>, a bool, an int, a float,
  a string, a list or a dict. A float is finite, and then the rational number it stands
  for, or one of the values that the parser makes of \<^verbatim>\<open>Infinity\<close>, \<^verbatim>\<open>-Infinity\<close> and
  \<^verbatim>\<open>NaN\<close>. The operators the script applies to such values raise on the wrong type; the
  exceptions are values of \<open>py_error\<close>.
\<close>

datatype py_error =
  TypeError | KeyError | AttributeError | ValueError | IndexError | OverflowError

datatype py_float = Finite rat | PlusInfinity | MinusInfinity | NotANumber

datatype json =
    JNull
  | JBool bool
  | JInt int
  | JFloat py_float
  | JStr string
  | JList "json list"
  | JObj "(string \<times> json) list"

text \<open>Truth value of a Python object, as \<^verbatim>\<open>if x\<close> and \<^verbatim>\<open>not x\<close> test it.\<close>

fun truthy :: "json \<Rightarrow> bool" where
  "truthy JNull = False"
| "truthy (JBool b) = b"
| "truthy (JInt n) = (n \<noteq> 0)"
| "truthy (JFloat x) = (x \<noteq> Finite 0)"
| "truthy (JStr s) = (s \<noteq> [])"
| "truthy (JList xs) = (xs \<noteq> [])"
| "truthy (JObj kvs) = (kvs \<noteq> [])"

definition is_substring :: "string \<Rightarrow> string \<Rightarrow> bool" where
  "is_substring p s = list_ex (\<lambda>i. take (length p) (drop i s) = p) [0..<Suc (length s)]"

text \<open>
  \<^verbatim>\<open>key in x\<close> for a string key: a key of a dict, an element of a list, a substring of a
  string; \<^verbatim>\<open>TypeError\<close> on an int, a float, a bool or \<^verbatim>\<open>None\<close>.
\<close>

fun py_in :: "string \<Rightarrow> json \<Rightarrow> py_error + bool" where
  "py_in k (JObj kvs) = Inr (k \<in> set (map fst kvs))"
| "py_in k (JList xs) = Inr (JStr k \<in> set xs)"
| "py_in k (JStr s) = Inr (is_substring k s)"
| "py_in k (JInt n) = Inl TypeError"
| "py_in k (JFloat x) = Inl TypeError"
| "py_in k (JBool b) = Inl TypeError"
| "py_in k JNull = Inl TypeError"

text \<open>\<^verbatim>\<open>x[key]\<close> for a string key: only a dict can be indexed by a string.\<close>

fun py_getitem :: "json \<Rightarrow> string \<Rightarrow> py_error + json" where
  "py_getitem (JObj kvs) k = (case map_of kvs k of Some v \<Rightarrow> Inr v | None \<Rightarrow> Inl KeyError)"
| "py_getitem (JList xs) k = Inl TypeError"
| "py_getitem (JStr s) k = Inl TypeError"
| "py_getitem (JInt n) k = Inl TypeError"
| "py_getitem (JFloat x) k = Inl TypeError"
| "py_getitem (JBool b) k = Inl TypeError"
| "py_getitem JNull k = Inl TypeError"

text \<open>\<^verbatim>\<open>d.get(key)\<close> on a dict, and \<^verbatim>\<open>x.get(key, default)\<close> on any value.\<close>

definition dict_get :: "(string \<times> json) list \<Rightarrow> string \<Rightarrow> json" where
  "dict_get kvs k = (case map_of kvs k of Some v \<Rightarrow> v | None \<Rightarrow> JNull)"

fun py_get :: "json \<Rightarrow> string \<Rightarrow> json \<Rightarrow> py_error + json" where
  "py_get (JObj kvs) k dflt = Inr (case map_of kvs k of Some v \<Rightarrow> v | None \<Rightarrow> dflt)"
| "py_get (JList xs) k dflt = Inl AttributeError"
| "py_get (JStr s) k dflt = Inl AttributeError"
| "py_get (JInt n) k dflt = Inl AttributeError"
| "py_get (JFloat x) k dflt = Inl AttributeError"
| "py_get (JBool b) k dflt = Inl AttributeError"
| "py_get JNull k dflt = Inl AttributeError"

text \<open>\<^verbatim>\<open>a or b\<close>.\<close>

definition py_or :: "json \<Rightarrow> json \<Rightarrow> json" where
  "py_or a b = (if truthy a then a else b)"

text \<open>
  \<^verbatim>\<open>int(x)\<close>. A finite float is truncated towards zero; an infinite one raises
  \<^verbatim>\<open>OverflowError\<close> and \<^verbatim>\<open>NaN\<close> raises \<^verbatim>\<open>ValueError\<close>. What the interpreter makes
  of a string is a parameter \<open>int_of_str\<close> (\<open>None\<close> when it raises \<^verbatim>\<open>ValueError\<close>).
\<close>

fun py_int :: "(string \<Rightarrow> int option) \<Rightarrow> json \<Rightarrow> py_error + int" where
  "py_int int_of_str (JInt n) = Inr n"
| "py_int int_of_str (JBool b) = Inr (if b then 1 else 0)"
| "py_int int_of_str (JFloat (Finite q)) = Inr (if 0 \<le> q then \<lfloor>q\<rfloor> else \<lceil>q\<rceil>)"
| "py_int int_of_str (JFloat PlusInfinity) = Inl OverflowError"
| "py_int int_of_str (JFloat MinusInfinity) = Inl OverflowError"
| "py_int int_of_str (JFloat NotANumber) = Inl ValueError"
| "py_int int_of_str (JStr s) = (case int_of_str s of Some n \<Rightarrow> Inr n | None \<Rightarrow> Inl ValueError)"
| "py_int int_of_str (JList xs) = Inl TypeError"
| "py_int int_of_str (JObj kvs) = Inl TypeError"
| "py_int int_of_str JNull = Inl TypeError"

section \<open>Phone verification: number and order id from the purchase response\<close>

text \<open>
  \<^verbatim>\<open>
  for key in (...):
      if key in number_data:
          phone_number = number_data[key]
          break
  \<close>
  The variable keeps its old value when no key is present.
\<close>

fun first_key :: "string list \<Rightarrow> json \<Rightarrow> json \<Rightarrow> py_error + json" where
  "first_key [] number_data old = Inr old"
| "first_key (key # keys) number_data old =
     (case py_in key number_data of
        Inl e \<Rightarrow> Inl e
      | Inr True \<Rightarrow> py_getitem number_data key
      | Inr False \<Rightarrow> first_key keys number_data old)"

text \<open>
  Lines 240 to 259 of \<^verbatim>\<open>handle_phone_verification\<close>: the two loops over the key names
  at the top level, then the nested \<^verbatim>\<open>result\<close>, looked at only when no truthy phone
  number was found and \<^verbatim>\<open>number_data["result"]\<close> is a dict. The result is
  \<open>(phone_number, order_id)\<close>, \<open>JNull\<close> for \<^verbatim>\<open>None\<close>.
\<close>

definition extract_number_data :: "json \<Rightarrow> py_error + (json \<times> json)" where
  "extract_number_data number_data =
     (case first_key [''number'', ''phone'', ''msisdn'', ''phonenumber''] number_data JNull of
        Inl e \<Rightarrow> Inl e
      | Inr phone_number \<Rightarrow>
     (case first_key [''orderid'', ''order_id'', ''orderId'', ''id''] number_data JNull of
        Inl e \<Rightarrow> Inl e
      | Inr order_id \<Rightarrow>
          if \<not> truthy phone_number then
            (case py_in ''result'' number_data of
               Inl e \<Rightarrow> Inl e
             | Inr False \<Rightarrow> Inr (phone_number, order_id)
             | Inr True \<Rightarrow>
                 (case py_getitem number_data ''result'' of
                    Inl e \<Rightarrow> Inl e
                  | Inr (JObj r) \<Rightarrow>
                      Inr (py_or (dict_get r ''number'') (dict_get r ''phone''),
                           py_or (dict_get r ''orderid'') (dict_get r ''order_id''))
                  | Inr _ \<Rightarrow> Inr (phone_number, order_id)))
          else Inr (phone_number, order_id)))"

text \<open>
  Lines 235 to 265: \<^verbatim>\<open>number_data = get_smspool_number()\<close>, which is \<^verbatim>\<open>None\<close> or the
  parsed response; the function returns \<^verbatim>\<open>False\<close> when it is falsy, when the extraction
  raises (the \<^verbatim>\<open>except Exception\<close> around the whole body returns \<^verbatim>\<open>False\<close>) and when
  no truthy phone number came out; otherwise it goes on with the number and the order id.
\<close>

datatype acquisition = ReturnFalse | Acquired json json

definition acquire_number :: "json \<Rightarrow> acquisition" where
  "acquire_number number_data =
     (if \<not> truthy number_data then ReturnFalse
      else case extract_number_data number_data of
             Inl e \<Rightarrow> ReturnFalse
           | Inr (phone_number, order_id) \<Rightarrow>
               if \<not> truthy phone_number then ReturnFalse
               else Acquired phone_number order_id)"

section \<open>Polling the SMS provider\<close>

text \<open>
  The outcome of one \<^verbatim>\<open>requests.post\<close> to the check endpoint: the call raises, or it
  gives a status code and a body, which \<^verbatim>\<open>response.json()\<close> parses (\<open>None\<close>: it
  raises). The provider is a function from the number of the request to its outcome.
\<close>

datatype http = RequestFailed | Http nat "json option"

record provider =
  SMSPOOL_KEY :: string
  requests_post :: "nat \<Rightarrow> http"
  int_of_str :: "string \<Rightarrow> int option"

text \<open>What \<^verbatim>\<open>get_smspool_sms\<close> does to the outside, in order.\<close>

datatype action = Post | Sleep nat

text \<open>
  \<^verbatim>\<open>if "sms" in res and res["sms"]: return res["sms"]\<close>: the SMS when the field is there
  and truthy.
\<close>

definition sms_field :: "json \<Rightarrow> py_error + json option" where
  "sms_field res =
     (case py_in ''sms'' res of
        Inl e \<Rightarrow> Inl e
      | Inr False \<Rightarrow> Inr None
      | Inr True \<Rightarrow>
          (case py_getitem res ''sms'' of
             Inl e \<Rightarrow> Inl e
           | Inr v \<Rightarrow> Inr (if truthy v then Some v else None)))"

text \<open>
  One request and what the function does with the response: \<open>Inl\<close> is a
  \<^verbatim>\<open>return\<close> (of \<^verbatim>\<open>None\<close> on a failed request, a status other than 200, a body that
  is not JSON or an exception; of the SMS when there is one), \<open>Inr res\<close> the parsed
  response without SMS. Every exception is caught by the \<^verbatim>\<open>except Exception\<close> around the
  body, which returns \<^verbatim>\<open>None\<close>.
\<close>

definition check_once :: "provider \<Rightarrow> nat \<Rightarrow> json option + json" where
  "check_once p n =
     (case requests_post p n of
        RequestFailed \<Rightarrow> Inl None
      | Http status_code body \<Rightarrow>
          if status_code \<noteq> 200 then Inl None
          else (case body of
                  None \<Rightarrow> Inl None
                | Some res \<Rightarrow>
                    (case sms_field res of
                       Inl e \<Rightarrow> Inl None
                     | Inr (Some sms) \<Rightarrow> Inl (Some sms)
                     | Inr None \<Rightarrow> Inr res)))"

text \<open>
  \<^verbatim>\<open>
  retries = 6
  while retries > 0:
      time_left = int(res.get("time_left", 30))
      if time_left <= 0:
          return None
      time.sleep(15)
      response = requests.post(url, headers=headers, data=payload, timeout=30)
      ...
      retries -= 1
  return None
  \<close>
  \<open>poll p retries res n acts\<close>: the loop with \<open>retries\<close> left, the last response \<open>res\<close>,
  \<open>n\<close> requests made and the actions \<open>acts\<close> so far.
\<close>

definition time_left :: "provider \<Rightarrow> json \<Rightarrow> py_error + int" where
  "time_left p res =
     (case py_get res ''time_left'' (JInt 30) of
        Inl e \<Rightarrow> Inl e
      | Inr v \<Rightarrow> py_int (int_of_str p) v)"

fun poll :: "provider \<Rightarrow> nat \<Rightarrow> json \<Rightarrow> nat \<Rightarrow> action list \<Rightarrow> json option \<times> action list" where
  "poll p 0 res n acts = (None, acts)"
| "poll p (Suc retries) res n acts =
     (case time_left p res of
        Inl e \<Rightarrow> (None, acts)
      | Inr t \<Rightarrow>
          if t \<le> 0 then (None, acts)
          else (case check_once p n of
                  Inl r \<Rightarrow> (r, acts @ [Sleep 15, Post])
                | Inr res' \<Rightarrow> poll p retries res' (Suc n) (acts @ [Sleep 15, Post])))"

definition get_smspool_sms :: "provider \<Rightarrow> json option \<times> action list" where
  "get_smspool_sms p =
     (if SMSPOOL_KEY p = [] then (None, [])
      else case check_once p 0 of
             Inl r \<Rightarrow> (r, [Post])
           | Inr res \<Rightarrow> poll p 6 res 1 [Post])"

text \<open>
  The provider answers request \<open>n\<close> with status 200 and a response that has no SMS and a
  \<^verbatim>\<open>time_left\<close> whose integer value \<^verbatim>\<open>int(time_left)\<close> is above 0 (the default 30
  when the field is missing).
\<close>

definition still_waiting :: "provider \<Rightarrow> nat \<Rightarrow> bool" where
  "still_waiting p n =
     (case requests_post p n of
        RequestFailed \<Rightarrow> False
      | Http status_code body \<Rightarrow>
          status_code = 200 \<and>
          (case body of
             None \<Rightarrow> False
           | Some res \<Rightarrow>
               sms_field res = Inr None \<and>
               (case time_left p res of Inl e \<Rightarrow> False | Inr t \<Rightarrow> 0 < t)))"

text \<open>
  The provider answers request \<open>n\<close> with status 200 and a response that has no SMS and a
  \<^verbatim>\<open>time_left\<close> whose integer value is 0 or less.
\<close>

definition expired :: "provider \<Rightarrow> nat \<Rightarrow> bool" where
  "expired p n =
     (case requests_post p n of
        RequestFailed \<Rightarrow> False
      | Http status_code body \<Rightarrow>
          status_code = 200 \<and>
          (case body of
             None \<Rightarrow> False
           | Some res \<Rightarrow>
               sms_field res = Inr None \<and>
               (case time_left p res of Inl e \<Rightarrow> False | Inr t \<Rightarrow> t \<le> 0)))"

text \<open>
  Providers that never send an SMS: one that always answers with 600 seconds left, one that
  answers with 20 seconds left to the first request and with 0 from then on, and one that
  always answers with half a second left.
\<close>

definition waiting_provider :: provider where
  "waiting_provider =
     \<lparr>SMSPOOL_KEY = ''key'',
      requests_post = (\<lambda>n. Http 200 (Some (JObj [(''status'', JInt 1), (''time_left'', JInt 600)]))),
      int_of_str = (\<lambda>s. None)\<rparr>"

definition expiring_provider :: provider where
  "expiring_provider =
     \<lparr>SMSPOOL_KEY = ''key'',
      requests_post = (\<lambda>n. Http 200 (Some (JObj [(''status'', JInt 1),
                          (''time_left'', JInt (if n = 0 then 20 else 0))]))),
      int_of_str = (\<lambda>s. None)\<rparr>"

definition half_second_provider :: provider where
  "half_second_provider =
     \<lparr>SMSPOOL_KEY = ''key'',
      requests_post = (\<lambda>n. Http 200 (Some (JObj [(''status'', JInt 1),
                          (''time_left'', JFloat (Finite (1 / 2)))]))),
      int_of_str = (\<lambda>s. None)\<rparr>"

text \<open>
  The extraction as a prioritized list of rules, one per key name, each giving the value
  under its key when the key is present: the first rule that succeeds wins, and \<open>JNull\<close>
  stands for no match.
\<close>

definition first_present :: "string list \<Rightarrow> (string \<times> json) list \<Rightarrow> json" where
  "first_present keys kvs =
     (case List.map_filter (map_of kvs) keys of [] \<Rightarrow> JNull | v # vs \<Rightarrow> v)"

text \<open>Purchase responses: flat, nested, without a number, and with other key names.\<close>

definition flat_response :: "(string \<times> json) list" where
  "flat_response =
     [(''success'', JInt 1), (''phone'', JStr ''15551234567''), (''order_id'', JStr ''ABC123'')]"

definition nested_result :: "(string \<times> json) list" where
  "nested_result = [(''phone'', JInt 15551234567), (''order_id'', JStr ''XYZ789'')]"

definition nested_response :: "(string \<times> json) list" where
  "nested_response = [(''success'', JInt 1), (''result'', JObj nested_result)]"

definition refused_response :: "(string \<times> json) list" where
  "refused_response = [(''success'', JInt 0), (''message'', JStr ''No numbers available'')]"

definition empty_result_response :: "(string \<times> json) list" where
  "empty_result_response = [(''success'', JInt 1), (''result'', JObj [(''status'', JStr ''pending'')])]"

definition nested_msisdn_response :: json where
  "nested_msisdn_response =
     JObj [(''result'', JObj [(''msisdn'', JStr ''15551234567''), (''id'', JStr ''A1'')])]"

definition nested_order_response :: json where
  "nested_order_response =
     JObj [(''number'', JStr ''15551234567''), (''result'', JObj [(''orderid'', JStr ''A1'')])]"

section \<open>The worklist and the batches\<close>

text \<open>
  \<^verbatim>\<open>read_google_sheet\<close>, from the rows that \<^verbatim>\<open>csv.reader\<close> gives:
  \<^verbatim>\<open>
  for row in rows:
      if len(row) < 5:
          row.extend([""] * (5 - len(row)))  # Ensure at least 5 columns
      if len(row) < 6:
          row.append("pending")  # Add 'status' if not present
      if len(row) < 7:
          row.append("")  # Add 'max_parallel_tabs' if not present
  \<close>
\<close>

definition pad_row :: "string list \<Rightarrow> string list" where
  "pad_row row =
     (let row1 = (if length row < 5 then row @ replicate (5 - length row) '''' else row);
          row2 = (if length row1 < 6 then row1 @ [''pending''] else row1);
          row3 = (if length row2 < 7 then row2 @ [''''] else row2)
      in row3)"

definition read_google_sheet :: "string list list \<Rightarrow> py_error + (string list \<times> string list list)" where
  "read_google_sheet csv_reader =
     (case csv_reader of
        [] \<Rightarrow> Inl IndexError
      | header # rows \<Rightarrow> Inr (header, map pad_row rows))"

text \<open>\<^verbatim>\<open>s.lower()\<close> and \<^verbatim>\<open>s.isdigit()\<close> on code points below 256.\<close>

definition lower_char :: "char \<Rightarrow> char" where
  "lower_char c =
     (let n = (of_char c :: nat)
      in if (65 \<le> n \<and> n \<le> 90) \<or> (192 \<le> n \<and> n \<le> 222 \<and> n \<noteq> 215) then char_of (n + 32) else c)"

definition lower :: "string \<Rightarrow> string" where
  "lower s = map lower_char s"

definition isdigit :: "string \<Rightarrow> bool" where
  "isdigit s = (s \<noteq> [] \<and> list_all (\<lambda>c. is_digit c \<or> (of_char c :: nat) \<in> set [178, 179, 185]) s)"

text \<open>\<^verbatim>\<open>str(n)\<close> for a natural number, and \<^verbatim>\<open>xs.index(x)\<close>.\<close>

function str_nat :: "nat \<Rightarrow> string" where
  "str_nat n =
     (if n < 10 then [''0123456789'' ! n] else str_nat (n div 10) @ [''0123456789'' ! (n mod 10)])"
  by pat_completeness auto
termination
  by (relation "measure id") auto

declare str_nat.simps [simp del]

fun index_of :: "'a \<Rightarrow> 'a list \<Rightarrow> nat option" where
  "index_of x [] = None"
| "index_of x (y # ys) = (if x = y then Some 0 else map_option Suc (index_of x ys))"

text \<open>
  In \<^verbatim>\<open>main\<close>, the width of a batch: the \<^verbatim>\<open>max_parallel_tabs\<close> cell of the first row
  when the header names that column and the cell, stripped, is all digits; 1 otherwise, also
  when anything raises (no row, no such cell, a digit string that \<^verbatim>\<open>int\<close> refuses).
\<close>

definition max_parallel_tabs :: "(string \<Rightarrow> int option) \<Rightarrow> string list \<Rightarrow> string list list \<Rightarrow> int" where
  "max_parallel_tabs to_int header rows =
     (case index_of ''max_parallel_tabs'' header of
        None \<Rightarrow> 1
      | Some idx \<Rightarrow>
          (case rows of
             [] \<Rightarrow> 1
           | row0 # _ \<Rightarrow>
               if length row0 \<le> idx then 1
               else if isdigit (strip (row0 ! idx))
                    then (case to_int (row0 ! idx) of Some n \<Rightarrow> n | None \<Rightarrow> 1)
                    else 1))"

text \<open>
  One worker thread: the arguments that \<^verbatim>\<open>main\<close> passes to \<^verbatim>\<open>process_single_account\<close>.
  In the batch that starts at row \<open>i\<close>, every row that is not done is launched with
  \<^verbatim>\<open>worker_id = f"thread_{i+1}"\<close>; \<^verbatim>\<open>row[4]\<close> raises on a row of fewer than 5 cells.
\<close>

record launch =
  gemail :: string
  gpassword :: string
  instantly_email :: string
  instantly_password :: string
  worker_id :: string

definition row_status :: "string list \<Rightarrow> py_error + string" where
  "row_status row = (if length row \<le> 4 then Inl IndexError else Inr (lower (strip (row ! 4))))"

fun start_batch :: "nat \<Rightarrow> string list list \<Rightarrow> py_error + launch list" where
  "start_batch i [] = Inr []"
| "start_batch i (row # batch) =
     (case row_status row of
        Inl e \<Rightarrow> Inl e
      | Inr status \<Rightarrow>
          if status = ''done'' then start_batch i batch
          else (case start_batch i batch of
                  Inl e \<Rightarrow> Inl e
                | Inr started \<Rightarrow>
                    Inr (\<lparr>gemail = strip (row ! 0), gpassword = strip (row ! 1),
                          instantly_email = strip (row ! 2), instantly_password = strip (row ! 3),
                          worker_id = ''thread_'' @ str_nat (i + 1)\<rparr> # started)))"

text \<open>
  \<^verbatim>\<open>for i in range(0, len(rows), MAX_PARALLEL_TABS): batch = rows[i:i + MAX_PARALLEL_TABS]\<close>.
  A step of 0 raises \<^verbatim>\<open>ValueError\<close>; a negative step gives no batch. The result is the
  list of batches, each the list of its launches.
\<close>

fun run_batches :: "nat list \<Rightarrow> nat \<Rightarrow> string list list \<Rightarrow> py_error + launch list list" where
  "run_batches [] m rows = Inr []"
| "run_batches (i # starts) m rows =
     (case start_batch i (take m (drop i rows)) of
        Inl e \<Rightarrow> Inl e
      | Inr b \<Rightarrow>
          (case run_batches starts m rows of
             Inl e \<Rightarrow> Inl e
           | Inr bs \<Rightarrow> Inr (b # bs)))"

definition main :: "(string \<Rightarrow> int option) \<Rightarrow> string list list \<Rightarrow> py_error + launch list list" where
  "main to_int csv_reader =
     (case read_google_sheet csv_reader of
        Inl e \<Rightarrow> Inl e
      | Inr (header, rows) \<Rightarrow>
          (let MAX_PARALLEL_TABS = max_parallel_tabs to_int header rows
           in if MAX_PARALLEL_TABS = 0 then Inl ValueError
              else if MAX_PARALLEL_TABS < 0 then Inr []
              else let m = nat MAX_PARALLEL_TABS
                   in run_batches (map (\<lambda>j. j * m) [0..<(length rows + m - 1) div m]) m rows))"

text \<open>
  In \<^verbatim>\<open>process_single_account\<close>:
  \<^verbatim>\<open>user_data_dir = f"/tmp/seleniumbase_user_data_{worker_id}_{os.getpid()}_{random.randint(1000, 9999)}"\<close>,
  a function of the worker id, the process id and the number drawn.
\<close>

definition user_data_dir :: "string \<Rightarrow> nat \<Rightarrow> nat \<Rightarrow> string" where
  "user_data_dir wid pid drawn =
     ''/tmp/seleniumbase_user_data_'' @ wid @ ''_'' @ str_nat pid @ ''_'' @ str_nat drawn"

text \<open>A sheet of two pending rows with a batch width of 2, and a row of four cells.\<close>

definition two_row_sheet :: "string list list" where
  "two_row_sheet =
     [[''email'', ''password'', ''instantly_email'', ''instantly_password'', ''status'',
       ''note'', ''max_parallel_tabs''],
      [''a@example.com'', ''pw-a'', ''host@example.com'', ''pw-h'', ''pending'', '''', ''2''],
      [''b@example.com'', ''pw-b'', ''host@example.com'', ''pw-h'', ''pending'', '''', '''']]"

definition small_int :: "string \<Rightarrow> int option" where
  "small_int s = (if s = ''1'' then Some 1 else if s = ''2'' then Some 2 else if s = ''3'' then Some 3 else None)"

definition short_row :: "string list" where
  "short_row = [''a@example.com'', ''pw-a'', ''host@example.com'', ''pw-h'']"

section \<open>The element resolver\<close>

text \<open>
  Selenium exceptions: the three classes that the workflow's handlers name, and any other;
  an exception carries its class and its message \<^verbatim>\<open>str(e)\<close>.
\<close>

datatype exc_class =
  StaleElementReferenceException | TimeoutException | NoSuchElementException | OtherException

datatype exc = Exc exc_class string

text \<open>
  The document context of the driver is the top-level document or a frame. The browser is
  what answers the driver's calls; the first argument of each answer is the number of the
  call, so that a page may change while it is searched. \<open>find_iframes\<close> is
  \<^verbatim>\<open>driver.find_elements(By.TAG_NAME, 'iframe')\<close> in a context (\<open>None\<close>: it raises),
  \<open>switch_to_frame\<close> is \<^verbatim>\<open>driver.switch_to.frame(iframe)\<close> (false: it raises),
  \<open>switch_to_default_content\<close> is \<^verbatim>\<open>driver.switch_to.default_content()\<close> (the
  exception, if it raises), \<open>wait_clickable\<close> is the \<^verbatim>\<open>WebDriverWait\<close> for the
  locator to be clickable within the timeout (false: it raises), and \<open>click\<close> is the click,
  by script or native (false: it raises).
\<close>

datatype ctx = Top | Frame nat

record browser =
  find_iframes :: "nat \<Rightarrow> ctx \<Rightarrow> nat list option"
  switch_to_frame :: "nat \<Rightarrow> nat \<Rightarrow> bool"
  switch_to_default_content :: "nat \<Rightarrow> exc option"
  wait_clickable :: "nat \<Rightarrow> ctx \<Rightarrow> string \<Rightarrow> bool"
  click :: "nat \<Rightarrow> bool \<Rightarrow> ctx \<Rightarrow> string \<Rightarrow> bool"

text \<open>
  The driver: its context, the number of calls made, and the trail of what happened: a
  frame entered, the top level restored, a locator probed in a context, an element clicked.
\<close>

datatype step = Enter nat | Restore | Probe ctx string | Clicked ctx string

record driver =
  doc :: ctx
  calls :: nat
  trail :: "step list"

definition do_find_iframes :: "browser \<Rightarrow> driver \<Rightarrow> nat list option \<times> driver" where
  "do_find_iframes b d = (find_iframes b (calls d) (doc d), d\<lparr>calls := Suc (calls d)\<rparr>)"

definition do_switch_frame :: "browser \<Rightarrow> nat \<Rightarrow> driver \<Rightarrow> bool \<times> driver" where
  "do_switch_frame b iframe d =
     (if switch_to_frame b (calls d) iframe
      then (True, d\<lparr>doc := Frame iframe, calls := Suc (calls d), trail := trail d @ [Enter iframe]\<rparr>)
      else (False, d\<lparr>calls := Suc (calls d)\<rparr>))"

definition do_default_content :: "browser \<Rightarrow> driver \<Rightarrow> exc option \<times> driver" where
  "do_default_content b d =
     (case switch_to_default_content b (calls d) of
        None \<Rightarrow> (None, d\<lparr>doc := Top, calls := Suc (calls d), trail := trail d @ [Restore]\<rparr>)
      | Some e \<Rightarrow> (Some e, d\<lparr>calls := Suc (calls d)\<rparr>))"

text \<open>
  The body of both inner \<^verbatim>\<open>try\<close> blocks: wait for the locator to be clickable in the
  current context, then click. False when either raises.
\<close>

definition wait_and_click :: "browser \<Rightarrow> bool \<Rightarrow> string \<Rightarrow> driver \<Rightarrow> bool \<times> driver" where
  "wait_and_click b use_js_click selector d =
     (let c = doc d;
          d1 = d\<lparr>calls := Suc (calls d), trail := trail d @ [Probe c selector]\<rparr>
      in if wait_clickable b (calls d) c selector
         then (if click b (calls d1) use_js_click c selector
               then (True, d1\<lparr>calls := Suc (calls d1), trail := trail d1 @ [Clicked c selector]\<rparr>)
               else (False, d1\<lparr>calls := Suc (calls d1)\<rparr>))
         else (False, d1))"

text \<open>
  \<^verbatim>\<open>
  for iframe in iframes:
      driver.switch_to.frame(iframe)
      try:
          element = WebDriverWait(driver, timeout).until(...)
          ... click ...
          driver.switch_to.default_content()
          return True
      except:
          driver.switch_to.default_content()
          continue
  \<close>
  \<^verbatim>\<open>switch_to.frame\<close> is outside the inner \<^verbatim>\<open>try\<close>, and so is the
  \<^verbatim>\<open>default_content\<close> of the inner handler: when one of them raises, the exception
  leaves the loop (\<open>FrameRaised\<close>) for the handler around the whole iteration. A
  \<^verbatim>\<open>default_content\<close> that raises after the click is caught by the inner handler.
\<close>

datatype frames_outcome = FoundInFrame | NoFrameMatch | FrameRaised

fun search_frames :: "browser \<Rightarrow> bool \<Rightarrow> string \<Rightarrow> nat list \<Rightarrow> driver \<Rightarrow> frames_outcome \<times> driver" where
  "search_frames b use_js_click selector [] d = (NoFrameMatch, d)"
| "search_frames b use_js_click selector (iframe # iframes) d =
     (case do_switch_frame b iframe d of
        (False, d1) \<Rightarrow> (FrameRaised, d1)
      | (True, d1) \<Rightarrow>
          (case wait_and_click b use_js_click selector d1 of
             (True, d2) \<Rightarrow>
               (case do_default_content b d2 of
                  (None, d3) \<Rightarrow> (FoundInFrame, d3)
                | (Some e, d3) \<Rightarrow>
                    (case do_default_content b d3 of
                       (None, d4) \<Rightarrow> search_frames b use_js_click selector iframes d4
                     | (Some e', d4) \<Rightarrow> (FrameRaised, d4)))
           | (False, d2) \<Rightarrow>
               (case do_default_content b d2 of
                  (None, d3) \<Rightarrow> search_frames b use_js_click selector iframes d3
                | (Some e, d3) \<Rightarrow> (FrameRaised, d3))))"

text \<open>
  One iteration of \<^verbatim>\<open>for selector in selectors\<close>: the frames, then
  \<^verbatim>\<open>default_content\<close> and the top-level document. Whatever raises outside the inner
  \<^verbatim>\<open>try\<close> blocks is caught by
  \<^verbatim>\<open>except: driver.switch_to.default_content(); continue\<close>; an exception of that
  \<^verbatim>\<open>default_content\<close> leaves the function.
\<close>

datatype selector_outcome = ReturnTrue | NextSelector | Escaped exc

definition outer_handler :: "browser \<Rightarrow> driver \<Rightarrow> selector_outcome \<times> driver" where
  "outer_handler b d =
     (case do_default_content b d of
        (None, d') \<Rightarrow> (NextSelector, d')
      | (Some e, d') \<Rightarrow> (Escaped e, d'))"

definition try_selector :: "browser \<Rightarrow> bool \<Rightarrow> string \<Rightarrow> driver \<Rightarrow> selector_outcome \<times> driver" where
  "try_selector b use_js_click selector d =
     (case do_find_iframes b d of
        (None, d1) \<Rightarrow> outer_handler b d1
      | (Some iframes, d1) \<Rightarrow>
          (case search_frames b use_js_click selector iframes d1 of
             (FoundInFrame, d2) \<Rightarrow> (ReturnTrue, d2)
           | (FrameRaised, d2) \<Rightarrow> outer_handler b d2
           | (NoFrameMatch, d2) \<Rightarrow>
               (case do_default_content b d2 of
                  (Some e, d3) \<Rightarrow> outer_handler b d3
                | (None, d3) \<Rightarrow>
                    (case wait_and_click b use_js_click selector d3 of
                       (True, d4) \<Rightarrow> (ReturnTrue, d4)
                     | (False, d4) \<Rightarrow> (NextSelector, d4)))))"

text \<open>
  \<^verbatim>\<open>find_and_click_element(driver, selectors, description, worker_id, timeout, use_js_click)\<close>:
  \<open>Inr\<close> is the value returned, \<open>Inl\<close> an exception that leaves the function. The
  description and the worker id are only printed; the timeout is inside \<open>wait_clickable\<close>.
\<close>

fun find_and_click_element :: "browser \<Rightarrow> string list \<Rightarrow> bool \<Rightarrow> driver \<Rightarrow> (exc + bool) \<times> driver" where
  "find_and_click_element b [] use_js_click d = (Inr False, d)"
| "find_and_click_element b (selector # selectors) use_js_click d =
     (case try_selector b use_js_click selector d of
        (ReturnTrue, d') \<Rightarrow> (Inr True, d')
      | (Escaped e, d') \<Rightarrow> (Inl e, d')
      | (NextSelector, d') \<Rightarrow> find_and_click_element b selectors use_js_click d')"

text \<open>
  A page that stays as it is while it is searched and never makes a call raise: the frames
  of its top-level document (which have no frames of their own), and where each locator is
  clickable. \<open>browser_of\<close> is the browser that shows such a page.
\<close>

record page =
  frames :: "nat list"
  clickable :: "ctx \<Rightarrow> string \<Rightarrow> bool"

definition browser_of :: "page \<Rightarrow> browser" where
  "browser_of pg =
     \<lparr>find_iframes = (\<lambda>n c. Some (case c of Top \<Rightarrow> frames pg | Frame f \<Rightarrow> [])),
      switch_to_frame = (\<lambda>n f. True),
      switch_to_default_content = (\<lambda>n. None),
      wait_clickable = (\<lambda>n c selector. clickable pg c selector),
      click = (\<lambda>n js c selector. True)\<rparr>"

text \<open>
  The search as the specification words it. The order: for each locator, every embedded
  frame, then the top-level document. \<open>resolve\<close> walks that order: a frame is entered,
  probed and left for the top level again; the top level is restored and probed; the first
  place where the locator is clickable is clicked and gives success, and failure is the end
  of the order.
\<close>

definition search_order :: "page \<Rightarrow> string list \<Rightarrow> (ctx \<times> string) list" where
  "search_order pg selectors =
     concat (map (\<lambda>selector. map (\<lambda>f. (Frame f, selector)) (frames pg) @ [(Top, selector)]) selectors)"

definition approach :: "ctx \<Rightarrow> string \<Rightarrow> step list" where
  "approach c selector =
     (case c of Frame f \<Rightarrow> [Enter f, Probe (Frame f) selector] | Top \<Rightarrow> [Restore, Probe Top selector])"

definition leave :: "ctx \<Rightarrow> step list" where
  "leave c = (case c of Frame f \<Rightarrow> [Restore] | Top \<Rightarrow> [])"

fun resolve :: "page \<Rightarrow> (ctx \<times> string) list \<Rightarrow> bool \<times> step list" where
  "resolve pg [] = (False, [])"
| "resolve pg ((c, selector) # rest) =
     (if clickable pg c selector
      then (True, approach c selector @ [Clicked c selector] @ leave c)
      else (case resolve pg rest of (r, t) \<Rightarrow> (r, approach c selector @ leave c @ t)))"


definition top_driver :: driver where
  "top_driver = \<lparr>doc = Top, calls = 0, trail = []\<rparr>"



section \<open>The workflow for one account\<close>

text \<open>
  What \<^verbatim>\<open>process_single_account\<close> does to the outside, in order: a call of
  \<^verbatim>\<open>update_status_in_sheet(gemail, status)\<close> and a call of \<^verbatim>\<open>driver.quit()\<close>.
  Prints, delays and screenshots are left out. The run also counts the calls of
  \<^verbatim>\<open>driver.quit()\<close>.
\<close>

datatype effect = Status string string | Quit

record run =
  effects :: "effect list"
  quit_calls :: nat

text \<open>
  The site is how the browser answers this run. Each step gives the exception that its
  \<^verbatim>\<open>try\<close> block raises, if any; a step that is retried gives it for each attempt. Steps
  whose failure is swallowed on the spot and that report nothing (the optional
  \<^verbatim>\<open>Use another account\<close>, phone verification, the \<^verbatim>\<open>Connected\<close> check, the
  \<^verbatim>\<open>Back\<close> button) do not appear. \<open>acknowledge_warning\<close> is the exception that leaves
  step 13, which happens only when \<^verbatim>\<open>default_content\<close> raises in its handlers.
  The Continue gate runs \<open>find_and_click_element\<close> on \<open>gate_browser\<close> from the driver
  state \<open>gate_driver\<close>. \<open>quit\<close> answers the calls of \<^verbatim>\<open>driver.quit()\<close> by number.
\<close>

record site =
  new_driver :: "exc option"
  maximize_window :: "exc option"
  open_login_page :: "exc option"
  host_email_input :: "nat \<Rightarrow> exc option"
  host_password_input :: "nat \<Rightarrow> exc option"
  host_login_button :: "nat \<Rightarrow> exc option"
  add_new_button :: "nat \<Rightarrow> exc option"
  gmail_option :: "nat \<Rightarrow> exc option"
  oauth_option :: "nat \<Rightarrow> exc option"
  oauth_login_button :: "nat \<Rightarrow> exc option"
  switch_to_popup :: "exc option"
  gmail_email_input :: "nat \<Rightarrow> exc option"
  gmail_password_input :: "nat \<Rightarrow> exc option"
  acknowledge_warning :: "exc option"
  gate_browser :: browser
  gate_driver :: driver
  allow_button :: "exc option"
  switch_back :: "exc option"
  quit :: "nat \<Rightarrow> exc option"

definition str_exc :: "exc \<Rightarrow> string" where
  "str_exc e = (case e of Exc c m \<Rightarrow> m)"

text \<open>
  The classes named by
  \<^verbatim>\<open>except (StaleElementReferenceException, TimeoutException, NoSuchElementException)\<close>.
\<close>

definition caught :: "exc \<Rightarrow> bool" where
  "caught e = (case e of Exc c m \<Rightarrow> c \<noteq> OtherException)"

definition update_status_in_sheet :: "string \<Rightarrow> string \<Rightarrow> run \<Rightarrow> run" where
  "update_status_in_sheet email status w = w\<lparr>effects := effects w @ [Status email status]\<rparr>"

definition driver_quit :: "site \<Rightarrow> run \<Rightarrow> exc option \<times> run" where
  "driver_quit s w =
     (quit s (quit_calls w), w\<lparr>effects := effects w @ [Quit], quit_calls := Suc (quit_calls w)\<rparr>)"

text \<open>
  How a piece of the function ends: it falls through to the next statement, it returns, or
  it raises.
\<close>

datatype flow = Next | Return bool | Raise exc

text \<open>
  A step under the generic handler (steps 1, 9 and 16):
  \<^verbatim>\<open>
  except Exception as e:
      error_message = f"<what>: {str(e)}"
      save_screenshot(...)
      update_status_in_sheet(gemail, f"issue: {error_message}")
      raise Exception(error_message)
  \<close>
\<close>

definition guarded :: "exc option \<Rightarrow> string \<Rightarrow> string \<Rightarrow> run \<Rightarrow> flow \<times> run" where
  "guarded raised what email w =
     (case raised of
        None \<Rightarrow> (Next, w)
      | Some e \<Rightarrow>
          (let error_message = what @ '': '' @ str_exc e
           in (Raise (Exc OtherException error_message),
               update_status_in_sheet email (''issue: '' @ error_message) w)))"

text \<open>
  A step that is retried (steps 2 to 8, 11 and 12):
  \<^verbatim>\<open>
  for attempt in range(3):
      try:
          ...
          break
      except (StaleElementReferenceException, TimeoutException, NoSuchElementException) as e:
          random_delay(2)
          if attempt == 2:
              error_message = f"<what>: {str(e)}"
              save_screenshot(...)
              update_status_in_sheet(gemail, f"issue: {error_message}")
              raise Exception(error_message)
  \<close>
  An exception of another class is not caught here.
\<close>

fun attempts :: "(nat \<Rightarrow> exc option) \<Rightarrow> string \<Rightarrow> string \<Rightarrow> nat list \<Rightarrow> run \<Rightarrow> flow \<times> run" where
  "attempts raised what email [] w = (Next, w)"
| "attempts raised what email (attempt # rest) w =
     (case raised attempt of
        None \<Rightarrow> (Next, w)
      | Some e \<Rightarrow>
          if caught e then
            (if attempt = 2
             then (let error_message = what @ '': '' @ str_exc e
                   in (Raise (Exc OtherException error_message),
                       update_status_in_sheet email (''issue: '' @ error_message) w))
             else attempts raised what email rest w)
          else (Raise e, w))"

definition retried :: "(nat \<Rightarrow> exc option) \<Rightarrow> string \<Rightarrow> string \<Rightarrow> run \<Rightarrow> flow \<times> run" where
  "retried raised what email w = attempts raised what email [0, 1, 2] w"

text \<open>A statement that may raise with no handler of its own around it.\<close>

definition bare :: "exc option \<Rightarrow> run \<Rightarrow> flow \<times> run" where
  "bare raised w = (case raised of None \<Rightarrow> (Next, w) | Some e \<Rightarrow> (Raise e, w))"

text \<open>Statements in sequence: the first that returns or raises ends the sequence.\<close>

fun in_order :: "(run \<Rightarrow> flow \<times> run) list \<Rightarrow> run \<Rightarrow> flow \<times> run" where
  "in_order [] w = (Next, w)"
| "in_order (statement # statements) w =
     (case statement w of
        (Next, w') \<Rightarrow> in_order statements w'
      | (Return r, w') \<Rightarrow> (Return r, w')
      | (Raise e, w') \<Rightarrow> (Raise e, w'))"

text \<open>
  Steps 1 to 13, from \<^verbatim>\<open>driver.maximize_window()\<close> to the acknowledgement of the
  warning, each with the message of its handler.
\<close>

definition before_continue :: "site \<Rightarrow> string \<Rightarrow> (run \<Rightarrow> flow \<times> run) list" where
  "before_continue s email =
     [bare (maximize_window s),
      guarded (open_login_page s) ''Failed to navigate to Instantly login'' email,
      retried (host_email_input s) ''Failed to enter Instantly email'' email,
      retried (host_password_input s) ''Failed to enter Instantly password'' email,
      retried (host_login_button s) ''Failed to click Instantly login button'' email,
      retried (add_new_button s) ''Failed to click Add New button'' email,
      retried (gmail_option s) ''Failed to click Gmail option'' email,
      retried (oauth_option s) ''Failed to click OAuth option'' email,
      retried (oauth_login_button s) ''Failed to click OAuth Login button'' email,
      guarded (switch_to_popup s) ''Failed to switch to Google login window'' email,
      retried (gmail_email_input s) ''Failed to enter Gmail email or click Next'' email,
      retried (gmail_password_input s) ''Failed to enter Gmail password or click Next'' email,
      bare (acknowledge_warning s)]"

definition continue_btns :: "string list" where
  \<open>continue_btns =
     [''//button[span[text()="Continue"]]'',
      ''//button[contains(., "Continue")]'',
      ''//button[span[contains(text(), "Continue")]]'',
      ''//div[@role="button" and contains(., "Continue")]'',
      ''//button[@id="submit"]'',
      ''//button[@type="button" and contains(., "Continue")]'',
      ''//button[contains(@class, "VfPpkd-LgbsSe") and contains(., "Continue")]'',
      ''//button[@jsname="LgbsSe"]'',
      ''//input[@type="submit" and contains(@value, "Continue")]'',
      ''//button[contains(text(), "Continue")]'']\<close>

text \<open>
  The handler of both gates, for the classes it names:
  \<^verbatim>\<open>
  except (StaleElementReferenceException, TimeoutException, NoSuchElementException) as e:
      error_message = f"<what>: {str(e)}"
      save_screenshot(...)
      update_status_in_sheet(gemail, f"issue: {error_message}")
      driver.quit()
      return False
  \<close>
  An exception of another class, and one raised by this \<^verbatim>\<open>driver.quit()\<close>, go on to
  the handler of the whole function.
\<close>

definition gate_handler :: "site \<Rightarrow> string \<Rightarrow> string \<Rightarrow> exc \<Rightarrow> run \<Rightarrow> flow \<times> run" where
  "gate_handler s what email e w =
     (if caught e then
        (let error_message = what @ '': '' @ str_exc e;
             w1 = update_status_in_sheet email (''issue: '' @ error_message) w
         in case driver_quit s w1 of
              (None, w2) \<Rightarrow> (Return False, w2)
            | (Some e', w2) \<Rightarrow> (Raise e', w2))
      else (Raise e, w))"

text \<open>
  Step 14, the Continue gate:
  \<^verbatim>\<open>
  try:
      if find_and_click_element(driver, continue_btns, "Continue button", worker_id,
                                timeout=10, use_js_click=True):
          random_delay(5)
      else:
          error_message = "Continue button not found within 10 seconds - closing browser"
          save_screenshot(...)
          update_status_in_sheet(gemail, f"issue: {error_message}")
          driver.quit()
          return False
  except (StaleElementReferenceException, TimeoutException, NoSuchElementException) as e:
      ...
  \<close>
  The \<^verbatim>\<open>driver.quit()\<close> of the \<^verbatim>\<open>else\<close> branch is inside the \<^verbatim>\<open>try\<close>.
\<close>

definition continue_gate :: "site \<Rightarrow> string \<Rightarrow> run \<Rightarrow> flow \<times> run" where
  "continue_gate s email w =
     (case fst (find_and_click_element (gate_browser s) continue_btns True (gate_driver s)) of
        Inr True \<Rightarrow> (Next, w)
      | Inr False \<Rightarrow>
          (let error_message = ''Continue button not found within 10 seconds - closing browser'';
               w1 = update_status_in_sheet email (''issue: '' @ error_message) w
           in case driver_quit s w1 of
                (None, w2) \<Rightarrow> (Return False, w2)
              | (Some e, w2) \<Rightarrow>
                  gate_handler s ''Continue button not found within 10 seconds'' email e w2)
      | Inl e \<Rightarrow> gate_handler s ''Continue button not found within 10 seconds'' email e w)"

text \<open>
  Step 15, the Allow gate:
  \<^verbatim>\<open>
  try:
      driver.wait_for_element_visible(allow_btn, timeout=10)
      driver.click(allow_btn)
      random_delay(5)
      update_status_in_sheet(gemail, 'done')
  except (StaleElementReferenceException, TimeoutException, NoSuchElementException) as e:
      ...
  \<close>
\<close>

definition allow_gate :: "site \<Rightarrow> string \<Rightarrow> run \<Rightarrow> flow \<times> run" where
  "allow_gate s email w =
     (case allow_button s of
        None \<Rightarrow> (Next, update_status_in_sheet email ''done'' w)
      | Some e \<Rightarrow> gate_handler s ''Allow button not found within 10 seconds'' email e w)"

text \<open>
  The \<^verbatim>\<open>try\<close> block of the function after the driver was made: steps 1 to 13, the two
  gates, and step 16, the switch back to the main window. Falling through the end is
  \<^verbatim>\<open>return True\<close>.
\<close>

definition try_block :: "site \<Rightarrow> string \<Rightarrow> run \<Rightarrow> flow \<times> run" where
  "try_block s email w =
     in_order (before_continue s email @
               [continue_gate s email,
                allow_gate s email,
                guarded (switch_back s) ''Failed to switch back to main window'' email]) w"

text \<open>
  \<^verbatim>\<open>process_single_account\<close>: the value returned and the run. When \<^verbatim>\<open>Driver(...)\<close>
  raises, \<^verbatim>\<open>driver\<close> is still \<^verbatim>\<open>None\<close> and the \<^verbatim>\<open>finally\<close> clause quits nothing.
  Otherwise
  \<^verbatim>\<open>
  except Exception as e:
      update_status_in_sheet(gemail, f"issue: {str(e)}")
      return False
  finally:
      if driver:
          try:
              driver.quit()
          except Exception as e:
              print(...)
  \<close>
\<close>

definition process_single_account :: "site \<Rightarrow> string \<Rightarrow> bool \<times> run" where
  "process_single_account s email =
     (let w0 = \<lparr>effects = [], quit_calls = 0\<rparr>
      in case new_driver s of
           Some e \<Rightarrow> (False, update_status_in_sheet email (''issue: '' @ str_exc e) w0)
         | None \<Rightarrow>
             (case try_block s email w0 of
                (Next, w) \<Rightarrow> (True, snd (driver_quit s w))
              | (Return r, w) \<Rightarrow> (r, snd (driver_quit s w))
              | (Raise e, w) \<Rightarrow>
                  (False, snd (driver_quit s (update_status_in_sheet email (''issue: '' @ str_exc e) w)))))"

text \<open>The statuses reported in a run, in order.\<close>

definition statuses :: "run \<Rightarrow> string list" where
  "statuses w = concat (map (\<lambda>x. case x of Status email status \<Rightarrow> [status] | Quit \<Rightarrow> []) (effects w))"

text \<open>
  The run reaches a gate: the driver was made and every step before the gate fell through.
  The gates succeed or fail as follows.
\<close>

definition reaches_continue :: "site \<Rightarrow> string \<Rightarrow> bool" where
  "reaches_continue s email =
     (new_driver s = None \<and>
      fst (in_order (before_continue s email) \<lparr>effects = [], quit_calls = 0\<rparr>) = Next)"

definition continue_clicked :: "site \<Rightarrow> bool" where
  "continue_clicked s =
     (fst (find_and_click_element (gate_browser s) continue_btns True (gate_driver s)) = Inr True)"

definition reaches_allow :: "site \<Rightarrow> string \<Rightarrow> bool" where
  "reaches_allow s email = (reaches_continue s email \<and> continue_clicked s)"

definition allow_clicked :: "site \<Rightarrow> bool" where
  "allow_clicked s = (allow_button s = None)"

text \<open>
  Sites: one where every step goes well (the Continue button is clickable at the top level
  of a page without frames), one where no Continue locator ever matches, one where the wait
  for the Allow button times out, and one where the switch back to the main window fails
  after Allow was clicked.
\<close>

definition happy_site :: site where
  "happy_site =
     \<lparr>new_driver = None, maximize_window = None, open_login_page = None,
      host_email_input = (\<lambda>attempt. None), host_password_input = (\<lambda>attempt. None),
      host_login_button = (\<lambda>attempt. None), add_new_button = (\<lambda>attempt. None),
      gmail_option = (\<lambda>attempt. None), oauth_option = (\<lambda>attempt. None),
      oauth_login_button = (\<lambda>attempt. None), switch_to_popup = None,
      gmail_email_input = (\<lambda>attempt. None), gmail_password_input = (\<lambda>attempt. None),
      acknowledge_warning = None,
      gate_browser = browser_of \<lparr>frames = [], clickable = (\<lambda>c selector. c = Top)\<rparr>,
      gate_driver = top_driver,
      allow_button = None, switch_back = None, quit = (\<lambda>n. None)\<rparr>"

definition continue_timeout_site :: site where
  "continue_timeout_site =
     happy_site\<lparr>gate_browser := browser_of \<lparr>frames = [], clickable = (\<lambda>c selector. False)\<rparr>\<rparr>"

definition allow_timeout_site :: site where
  "allow_timeout_site =
     happy_site\<lparr>allow_button := Some (Exc TimeoutException ''Message: timed out'')\<rparr>"

definition switch_back_site :: site where
  "switch_back_site = happy_site\<lparr>switch_back := Some (Exc OtherException ''no such window'')\<rparr>"

section \<open>Properties\<close>

text \<open>
  C5. Number formatting sends \<^verbatim>\<open>15551234567\<close> to \<^verbatim>\<open>+15551234567\<close>, sends
  \<^verbatim>\<open>0015551234567\<close> to \<^verbatim>\<open>+15551234567\<close> (the leading zeros are stripped before
  the plus sign is put in front), and leaves every input that starts with a plus sign as it is.
\<close>

theorem format_number_examples:
  "format_number ''15551234567'' = ''+15551234567''
   \<and> format_number ''0015551234567'' = ''+15551234567''
   \<and> (\<forall>rest. format_number (CHR ''+'' # rest) = CHR ''+'' # rest)"
  by (simp add: format_number_def startswith_def lstrip_zeros_def)

subsection \<open>OTP extraction\<close>

lemma match_here_SomeD:
  assumes "match_here s = Some m"
  shows "\<exists>post. s = m @ post \<and> 4 \<le> length m \<and> length m \<le> 8 \<and> (\<forall>c\<in>set m. is_digit c)"
proof -
  from assms have m: "m = takeWhile is_digit (take 8 s)" and len: "4 \<le> length m"
    by (auto simp: match_here_def Let_def split: if_splits)
  have "length m \<le> length (take 8 s)" unfolding m by (rule length_takeWhile_le)
  then have le8: "length m \<le> 8" by simp
  have dig: "\<forall>c\<in>set m. is_digit c" unfolding m by (auto dest: set_takeWhileD)
  have "take 8 s = m @ dropWhile is_digit (take 8 s)" unfolding m by simp
  moreover have "s = take 8 s @ drop 8 s" by simp
  ultimately have "s = m @ (dropWhile is_digit (take 8 s) @ drop 8 s)"
    by (metis append.assoc)
  with len le8 dig show ?thesis by blast
qed

lemma re_search_SomeD:
  "re_search s = Some m \<Longrightarrow>
     \<exists>pre post. s = pre @ m @ post \<and> 4 \<le> length m \<and> length m \<le> 8 \<and> (\<forall>c\<in>set m. is_digit c)"
proof (induction s)
  case Nil
  then show ?case by (simp add: match_here_def)
next
  case (Cons c cs)
  show ?case
  proof (cases "match_here (c # cs)")
    case None
    with Cons.prems have "re_search cs = Some m" by simp
    from Cons.IH[OF this] obtain pre post where
      "cs = pre @ m @ post" "4 \<le> length m" "length m \<le> 8" "\<forall>c\<in>set m. is_digit c" by blast
    then have "c # cs = (c # pre) @ m @ post" by simp
    then show ?thesis using \<open>4 \<le> length m\<close> \<open>length m \<le> 8\<close> \<open>\<forall>c\<in>set m. is_digit c\<close> by blast
  next
    case (Some m')
    with Cons.prems have "m' = m" by simp
    with Some match_here_SomeD[of "c # cs" m] obtain post where
      "c # cs = m @ post" "4 \<le> length m" "length m \<le> 8" "\<forall>c\<in>set m. is_digit c" by blast
    then have "c # cs = [] @ m @ post" by simp
    then show ?thesis using \<open>4 \<le> length m\<close> \<open>length m \<le> 8\<close> \<open>\<forall>c\<in>set m. is_digit c\<close> by blast
  qed
qed


lemma takeWhile_prefix_length:
  assumes "\<forall>c\<in>set (take n xs). P c" "n \<le> length xs"
  shows "n \<le> length (takeWhile P xs)"
proof -
  have "takeWhile P (take n xs @ drop n xs) = take n xs @ takeWhile P (drop n xs)"
    using assms(1) by (intro takeWhile_append2) simp
  then have "length (takeWhile P xs) = length (take n xs) + length (takeWhile P (drop n xs))"
    by simp
  with assms(2) show ?thesis by simp
qed

lemma match_here_run:
  assumes "\<forall>c\<in>set ds. is_digit c" "length ds = 4"
  shows "match_here (ds @ post) \<noteq> None"
proof -
  have "take 4 (take 8 (ds @ post)) = ds" using assms(2) by simp
  then have "\<forall>c\<in>set (take 4 (take 8 (ds @ post))). is_digit c" using assms(1) by simp
  moreover have "4 \<le> length (take 8 (ds @ post))" using assms(2) by simp
  ultimately have "4 \<le> length (takeWhile is_digit (take 8 (ds @ post)))"
    by (rule takeWhile_prefix_length)
  then show ?thesis by (simp add: match_here_def Let_def)
qed

lemma re_search_run:
  assumes "\<forall>c\<in>set ds. is_digit c" "length ds = 4"
  shows "re_search (pre @ ds @ post) \<noteq> None"
proof (induction pre)
  case Nil
  from assms(2) obtain d ds' where ds: "ds = d # ds'" by (cases ds) auto
  have "match_here (ds @ post) \<noteq> None" using assms by (rule match_here_run)
  then show ?case by (auto simp: ds)
next
  case (Cons c pre)
  then show ?case by (auto split: option.splits)
qed

lemma re_search_long_run:
  assumes "\<forall>c\<in>set pre. \<not> is_digit c" "\<forall>c\<in>set run. is_digit c" "8 < length run"
  shows "re_search (pre @ run @ post) = Some (take 8 run)"
  using assms(1)
proof (induction pre)
  case Nil
  from assms(3) obtain d ds' where ds: "run = d # ds'" by (cases run) auto
  have "take 8 (run @ post) = take 8 run" using assms(3) by simp
  moreover have "takeWhile is_digit (take 8 run) = take 8 run"
    using assms(2) by (auto simp: takeWhile_eq_all_conv dest: in_set_takeD)
  ultimately have tw: "takeWhile is_digit (take 8 (run @ post)) = take 8 run"
    by (simp only:)
  have "length (take 8 run) = 8" using assms(3) by simp
  then have "match_here (run @ post) = Some (take 8 run)"
    unfolding match_here_def Let_def tw by simp
  then show ?case by (simp add: ds)
next
  case (Cons c pre)
  then have "match_here (c # pre @ run @ post) = None"
    by (simp add: match_here_def Let_def)
  with Cons show ?case by simp
qed

lemma re_search_None_iff:
  "re_search s = None \<longleftrightarrow>
     \<not> (\<exists>pre ds post. s = pre @ ds @ post \<and> length ds = 4 \<and> (\<forall>c\<in>set ds. is_digit c))"
proof
  assume none: "re_search s = None"
  show "\<not> (\<exists>pre ds post. s = pre @ ds @ post \<and> length ds = 4 \<and> (\<forall>c\<in>set ds. is_digit c))"
  proof
    assume "\<exists>pre ds post. s = pre @ ds @ post \<and> length ds = 4 \<and> (\<forall>c\<in>set ds. is_digit c)"
    then obtain pre ds post where "s = pre @ ds @ post" "length ds = 4" "\<forall>c\<in>set ds. is_digit c"
      by blast
    with re_search_run[of ds pre post] none show False by simp
  qed
next
  assume no_run: "\<not> (\<exists>pre ds post. s = pre @ ds @ post \<and> length ds = 4 \<and> (\<forall>c\<in>set ds. is_digit c))"
  show "re_search s = None"
  proof (rule ccontr)
    assume "re_search s \<noteq> None"
    then obtain m where "re_search s = Some m" by blast
    from re_search_SomeD[OF this] obtain pre post where
      s: "s = pre @ m @ post" and len: "4 \<le> length m" and dig: "\<forall>c\<in>set m. is_digit c" by blast
    have "s = pre @ take 4 m @ (drop 4 m @ post)" using s by simp
    moreover have "length (take 4 m) = 4" using len by simp
    moreover have "\<forall>c\<in>set (take 4 m). is_digit c" using dig by (auto dest: in_set_takeD)
    ultimately show False using no_run by blast
  qed
qed

text \<open>
  C6. The code is the run of 4 to 8 consecutive digits that the pattern matches in the SMS
  body; a body with no 4 consecutive digits gives the whole body, trimmed. The body
  \<^verbatim>\<open>Your Google code is 482913. Don't share it.\<close> gives \<^verbatim>\<open>482913\<close>, and
  \<^verbatim>\<open>Verification pending\<close>, which has no digit, gives itself.
\<close>

theorem extract_otp_digit_run:
  "extract_otp ''Your Google code is 482913. Don't share it.'' = ''482913''
   \<and> extract_otp ''Verification pending'' = strip ''Verification pending''
   \<and> strip ''Verification pending'' = ''Verification pending''
   \<and> ((\<exists>pre ds post. s = pre @ ds @ post \<and> length ds = 4 \<and> (\<forall>c\<in>set ds. is_digit c)) \<longrightarrow>
        (\<exists>pre m post. s = pre @ m @ post \<and> 4 \<le> length m \<and> length m \<le> 8
            \<and> (\<forall>c\<in>set m. is_digit c) \<and> extract_otp s = m))
   \<and> (\<not> (\<exists>pre ds post. t = pre @ ds @ post \<and> length ds = 4 \<and> (\<forall>c\<in>set ds. is_digit c)) \<longrightarrow>
        extract_otp t = strip t)"
proof (intro conjI impI)
  show "extract_otp ''Your Google code is 482913. Don't share it.'' = ''482913''"
    by (simp add: extract_otp_def match_here_def is_digit_def)
  show "extract_otp ''Verification pending'' = strip ''Verification pending''"
    by (simp add: extract_otp_def match_here_def is_digit_def)
  show "strip ''Verification pending'' = ''Verification pending''"
    by (simp add: strip_def is_space_def)
next
  assume "\<exists>pre ds post. s = pre @ ds @ post \<and> length ds = 4 \<and> (\<forall>c\<in>set ds. is_digit c)"
  then have "re_search s \<noteq> None" by (simp add: re_search_None_iff)
  then obtain m where m: "re_search s = Some m" by blast
  then have "extract_otp s = m" by (simp add: extract_otp_def)
  with re_search_SomeD[OF m]
  show "\<exists>pre m post. s = pre @ m @ post \<and> 4 \<le> length m \<and> length m \<le> 8
            \<and> (\<forall>c\<in>set m. is_digit c) \<and> extract_otp s = m"
    by blast
next
  assume "\<not> (\<exists>pre ds post. t = pre @ ds @ post \<and> length ds = 4 \<and> (\<forall>c\<in>set ds. is_digit c))"
  then have "re_search t = None" by (simp add: re_search_None_iff)
  then show "extract_otp t = strip t" by (simp add: extract_otp_def)
qed

theorem extract_otp_digit_run_witness:
  "(\<exists>pre ds post. ''ab1234'' = pre @ ds @ post \<and> length ds = 4 \<and> (\<forall>c\<in>set ds. is_digit c))
   \<and> (\<exists>pre m post. ''ab1234'' = pre @ m @ post \<and> 4 \<le> length m \<and> length m \<le> 8
            \<and> (\<forall>c\<in>set m. is_digit c) \<and> extract_otp ''ab1234'' = m)
   \<and> \<not> (\<exists>pre ds post. '' no code '' = pre @ ds @ post \<and> length ds = 4 \<and> (\<forall>c\<in>set ds. is_digit c))
   \<and> extract_otp '' no code '' = ''no code''"
proof -
  have "''ab1234'' = ''ab'' @ ''1234'' @ [] \<and> length ''1234'' = 4 \<and> (\<forall>c\<in>set ''1234''. is_digit c)"
    by (simp add: is_digit_def)
  then have h1: "\<exists>pre ds post. ''ab1234'' = pre @ ds @ post \<and> length ds = 4 \<and> (\<forall>c\<in>set ds. is_digit c)"
    by blast
  have "re_search '' no code '' = None"
    by (simp add: match_here_def is_digit_def)
  then have h2: "\<not> (\<exists>pre ds post. '' no code '' = pre @ ds @ post \<and> length ds = 4 \<and> (\<forall>c\<in>set ds. is_digit c))"
    using re_search_None_iff[of "'' no code ''"] by blast
  have s: "strip '' no code '' = ''no code''"
    by (simp add: strip_def is_space_def)
  note inst = extract_otp_digit_run[of "''ab1234''" "'' no code ''"]
  from inst h1 have c1: "\<exists>pre m post. ''ab1234'' = pre @ m @ post \<and> 4 \<le> length m \<and> length m \<le> 8
            \<and> (\<forall>c\<in>set m. is_digit c) \<and> extract_otp ''ab1234'' = m"
    by blast
  from inst h2 have "extract_otp '' no code '' = strip '' no code ''"
    by blast
  with s have c2: "extract_otp '' no code '' = ''no code''"
    by (simp only:)
  from h1 c1 h2 c2 show ?thesis by blast
qed

text \<open>
  C10. When the digits of the body start with a run of more than 8 digits (no digit before
  the run), the code is the first 8 digits of that run, neither the whole run nor the trimmed
  body; and the search fails, so that the trimmed body is used, only for a body with no 4
  consecutive digits.
\<close>

theorem extract_otp_long_run:
  "((\<forall>c\<in>set pre. \<not> is_digit c) \<and> (\<forall>c\<in>set run. is_digit c) \<and> 8 < length run \<longrightarrow>
       extract_otp (pre @ run @ post) = take 8 run)
   \<and> (re_search s = None \<longleftrightarrow>
        \<not> (\<exists>pre ds post. s = pre @ ds @ post \<and> length ds = 4 \<and> (\<forall>c\<in>set ds. is_digit c)))"
proof (intro conjI impI)
  assume "(\<forall>c\<in>set pre. \<not> is_digit c) \<and> (\<forall>c\<in>set run. is_digit c) \<and> 8 < length run"
  then have "re_search (pre @ run @ post) = Some (take 8 run)"
    by (simp add: re_search_long_run)
  then show "extract_otp (pre @ run @ post) = take 8 run"
    by (simp add: extract_otp_def)
next
  show "re_search s = None \<longleftrightarrow>
        \<not> (\<exists>pre ds post. s = pre @ ds @ post \<and> length ds = 4 \<and> (\<forall>c\<in>set ds. is_digit c))"
    by (rule re_search_None_iff)
qed

theorem extract_otp_long_run_witness:
  "list_all (\<lambda>c. \<not> is_digit c) ''Code: '' \<and> list_all is_digit ''1234567890''
   \<and> 8 < length ''1234567890''
   \<and> extract_otp (''Code: '' @ ''1234567890'' @ '' is yours'') = ''12345678''
   \<and> extract_otp (''Code: '' @ ''1234567890'' @ '' is yours'') \<noteq> ''1234567890''
   \<and> extract_otp (''Code: '' @ ''1234567890'' @ '' is yours'') \<noteq> ''Code: 1234567890 is yours''"
proof -
  have h: "(\<forall>c\<in>set ''Code: ''. \<not> is_digit c) \<and> (\<forall>c\<in>set ''1234567890''. is_digit c)
           \<and> 8 < length ''1234567890''"
    by (simp add: is_digit_def)
  from extract_otp_long_run[of "''Code: ''" "''1234567890''" "'' is yours''"] h
  have "extract_otp (''Code: '' @ ''1234567890'' @ '' is yours'') = take 8 ''1234567890''"
    by blast
  then have "extract_otp (''Code: '' @ ''1234567890'' @ '' is yours'') = ''12345678''"
    by simp
  with h show ?thesis by (simp add: list_all_iff)
qed

subsection \<open>SMS polling\<close>

lemma still_waiting_check:
  assumes "still_waiting p n"
  shows "\<exists>res t. check_once p n = Inr res \<and> time_left p res = Inr t \<and> 0 < t"
  using assms
  by (auto simp: still_waiting_def check_once_def split: http.splits option.splits sum.splits)

lemma poll_waiting:
  assumes w: "\<forall>n. still_waiting p n"
  shows "time_left p res = Inr t \<Longrightarrow> 0 < t \<Longrightarrow>
         poll p r res n acts = (None, acts @ concat (replicate r [Sleep 15, Post]))"
proof (induction r arbitrary: res t n acts)
  case 0
  then show ?case by simp
next
  case (Suc r)
  from w have "still_waiting p n" by simp
  from still_waiting_check[OF this] obtain res' t' where
    c: "check_once p n = Inr res'" and t': "time_left p res' = Inr t'" "0 < t'" by blast
  from Suc.IH[OF t'] have
    "poll p r res' (Suc n) (acts @ [Sleep 15, Post])
       = (None, (acts @ [Sleep 15, Post]) @ concat (replicate r [Sleep 15, Post]))" .
  with Suc.prems c show ?case by simp
qed

lemma poll_actions_bound:
  "\<exists>k\<le>r. snd (poll p r res n acts) = acts @ concat (replicate k [Sleep 15, Post])"
proof (induction r arbitrary: res n acts)
  case 0
  then show ?case by simp
next
  case (Suc r)
  have zero: "acts = acts @ concat (replicate 0 [Sleep 15, Post])" by simp
  have one: "acts @ [Sleep 15, Post] = acts @ concat (replicate (Suc 0) [Sleep 15, Post])" by simp
  show ?case
  proof (cases "time_left p res")
    case (Inl e)
    then have "snd (poll p (Suc r) res n acts) = acts" by simp
    with zero show ?thesis by (metis le0)
  next
    case (Inr t)
    show ?thesis
    proof (cases "t \<le> 0")
      case True
      with Inr have "snd (poll p (Suc r) res n acts) = acts" by simp
      with zero show ?thesis by (metis le0)
    next
      case False
      show ?thesis
      proof (cases "check_once p n")
        case (Inl res')
        with Inr False have "snd (poll p (Suc r) res n acts) = acts @ [Sleep 15, Post]" by simp
        with one have "snd (poll p (Suc r) res n acts) = acts @ concat (replicate (Suc 0) [Sleep 15, Post])"
          by simp
        moreover have "Suc 0 \<le> Suc r" by simp
        ultimately show ?thesis by blast
      next
        case (Inr res')
        from Suc.IH[of res' "Suc n" "acts @ [Sleep 15, Post]"] obtain k where
          k: "k \<le> r" "snd (poll p r res' (Suc n) (acts @ [Sleep 15, Post]))
                 = (acts @ [Sleep 15, Post]) @ concat (replicate k [Sleep 15, Post])" by blast
        with \<open>time_left p res = Inr t\<close> False Inr
        have "snd (poll p (Suc r) res n acts) = acts @ concat (replicate (Suc k) [Sleep 15, Post])"
          by simp
        moreover have "Suc k \<le> Suc r" using k(1) by simp
        ultimately show ?thesis by blast
      qed
    qed
  qed
qed

lemma expired_check:
  assumes "expired p n"
  shows "\<exists>res t. check_once p n = Inr res \<and> time_left p res = Inr t \<and> t \<le> 0"
  using assms
  by (auto simp: expired_def check_once_def split: http.splits option.splits sum.splits)

lemma poll_expired_now:
  assumes "time_left p res = Inr t" "t \<le> 0"
  shows "poll p r res n acts = (None, acts)"
  using assms by (cases r) simp_all

lemma poll_expires:
  assumes "\<forall>m<k. still_waiting p (n + m)" "expired p (n + k)" "k < r"
    and "time_left p res = Inr t" "0 < t"
  shows "poll p r res n acts = (None, acts @ concat (replicate (Suc k) [Sleep 15, Post]))"
  using assms
proof (induction k arbitrary: r res t n acts)
  case 0
  from 0(3) obtain r' where r: "r = Suc r'" by (cases r) auto
  from 0(2) have "expired p n" by simp
  from expired_check[OF this] obtain res' t' where
    c: "check_once p n = Inr res'" and t': "time_left p res' = Inr t'" "t' \<le> 0" by blast
  from poll_expired_now[OF t'] have "poll p r' res' (Suc n) (acts @ [Sleep 15, Post]) = (None, acts @ [Sleep 15, Post])" .
  with 0(4,5) c show ?case by (simp add: r)
next
  case (Suc k)
  from Suc.prems(3) obtain r' where r: "r = Suc r'" and k: "k < r'" by (cases r) auto
  from Suc.prems(1) have "still_waiting p n" by (metis add.right_neutral zero_less_Suc)
  from still_waiting_check[OF this] obtain res' t' where
    c: "check_once p n = Inr res'" and t': "time_left p res' = Inr t'" "0 < t'" by blast
  have w: "\<forall>m<k. still_waiting p (Suc n + m)"
  proof (intro allI impI)
    fix m assume "m < k"
    then have "Suc m < Suc k" by simp
    with Suc.prems(1) have "still_waiting p (n + Suc m)" by blast
    then show "still_waiting p (Suc n + m)" by simp
  qed
  have e: "expired p (Suc n + k)" using Suc.prems(2) by simp
  from Suc.IH[OF w e k t', of "acts @ [Sleep 15, Post]"]
  have "poll p r' res' (Suc n) (acts @ [Sleep 15, Post])
          = (None, (acts @ [Sleep 15, Post]) @ concat (replicate (Suc k) [Sleep 15, Post]))" .
  with Suc.prems(4,5) c show ?case by (simp add: r)
qed

lemma get_smspool_sms_expires:
  assumes key: "SMSPOOL_KEY p \<noteq> []" and j: "j \<le> 6"
    and w: "\<forall>n<j. still_waiting p n" and e: "expired p j"
  shows "get_smspool_sms p = (None, Post # concat (replicate j [Sleep 15, Post]))"
proof (cases j)
  case 0
  with e have "expired p 0" by simp
  from expired_check[OF this] obtain res t where
    c: "check_once p 0 = Inr res" and t: "time_left p res = Inr t" "t \<le> 0" by blast
  from poll_expired_now[OF t] have "poll p 6 res 1 [Post] = (None, [Post])" .
  with key c 0 show ?thesis by (simp add: get_smspool_sms_def)
next
  case (Suc k)
  with w have "still_waiting p 0" by simp
  from still_waiting_check[OF this] obtain res t where
    c: "check_once p 0 = Inr res" and t: "time_left p res = Inr t" "0 < t" by blast
  have w': "\<forall>m<k. still_waiting p (1 + m)" using w Suc by simp
  have e': "expired p (1 + k)" using e Suc by simp
  have k: "k < 6" using j Suc by simp
  from poll_expires[OF w' e' k t, of "[Post]"]
  have "poll p 6 res 1 [Post] = (None, [Post] @ concat (replicate (Suc k) [Sleep 15, Post]))" .
  with key c Suc show ?thesis by (simp add: get_smspool_sms_def)
qed

text \<open>
  C3, as the code has it. When the check endpoint always answers with a \<^verbatim>\<open>time_left\<close>
  whose integer value is above 0 and with no SMS, \<^verbatim>\<open>get_smspool_sms\<close> returns
  \<^verbatim>\<open>None\<close> after the first request and exactly 6 more, each after a sleep of 15
  seconds. Whatever the provider answers, the function makes at most 6 requests after the
  first, each after a sleep of 15 seconds, and then returns. When the answers to the first
  \<open>j\<close> requests leave time and the answer to the next one, with \<open>j\<close> at most 6, has an
  integer \<^verbatim>\<open>time_left\<close> of 0 or less, the function returns \<^verbatim>\<open>None\<close> after exactly
  \<open>j\<close> requests following the first: the expired time ends the loop before the count does.
\<close>

theorem get_smspool_sms_bounded:
  "(SMSPOOL_KEY p \<noteq> [] \<and> (\<forall>n. still_waiting p n) \<longrightarrow>
      get_smspool_sms p = (None, Post # concat (replicate 6 [Sleep 15, Post])))
   \<and> (\<exists>k\<le>6. snd (get_smspool_sms p) = []
             \<or> snd (get_smspool_sms p) = Post # concat (replicate k [Sleep 15, Post]))
   \<and> (SMSPOOL_KEY p \<noteq> [] \<and> j \<le> 6 \<and> (\<forall>n<j. still_waiting p n) \<and> expired p j \<longrightarrow>
      get_smspool_sms p = (None, Post # concat (replicate j [Sleep 15, Post])))"
proof (intro conjI impI)
  assume a: "SMSPOOL_KEY p \<noteq> [] \<and> (\<forall>n. still_waiting p n)"
  then have w: "\<forall>n. still_waiting p n" by simp
  then have "still_waiting p 0" by simp
  from still_waiting_check[OF this] obtain res0 t0 where
    c: "check_once p 0 = Inr res0" and t0: "time_left p res0 = Inr t0" "0 < t0" by blast
  from poll_waiting[OF w t0] have
    "poll p 6 res0 1 [Post] = (None, [Post] @ concat (replicate 6 [Sleep 15, Post]))" .
  with a c show "get_smspool_sms p = (None, Post # concat (replicate 6 [Sleep 15, Post]))"
    by (simp add: get_smspool_sms_def)
next
  show "\<exists>k\<le>6. snd (get_smspool_sms p) = []
             \<or> snd (get_smspool_sms p) = Post # concat (replicate k [Sleep 15, Post])"
  proof (cases "SMSPOOL_KEY p = []")
    case True
    then have "snd (get_smspool_sms p) = []" by (simp add: get_smspool_sms_def)
    then show ?thesis by blast
  next
    case False
    show ?thesis
    proof (cases "check_once p 0")
      case (Inl r0)
      with False have "snd (get_smspool_sms p) = Post # concat (replicate 0 [Sleep 15, Post])"
        by (simp add: get_smspool_sms_def)
      then show ?thesis by blast
    next
      case (Inr res0)
      from poll_actions_bound[of 6 p res0 1 "[Post]"] obtain k where
        k: "k \<le> 6" "snd (poll p 6 res0 1 [Post]) = [Post] @ concat (replicate k [Sleep 15, Post])"
        by blast
      with False Inr have "snd (get_smspool_sms p) = Post # concat (replicate k [Sleep 15, Post])"
        by (simp add: get_smspool_sms_def)
      with k(1) show ?thesis by blast
    qed
  qed
next
  assume "SMSPOOL_KEY p \<noteq> [] \<and> j \<le> 6 \<and> (\<forall>n<j. still_waiting p n) \<and> expired p j"
  then show "get_smspool_sms p = (None, Post # concat (replicate j [Sleep 15, Post]))"
    using get_smspool_sms_expires by blast
qed

theorem get_smspool_sms_bounded_witness:
  "SMSPOOL_KEY waiting_provider \<noteq> [] \<and> (\<forall>n. still_waiting waiting_provider n)
   \<and> get_smspool_sms waiting_provider =
       (None, [Post, Sleep 15, Post, Sleep 15, Post, Sleep 15, Post,
               Sleep 15, Post, Sleep 15, Post, Sleep 15, Post])
   \<and> SMSPOOL_KEY expiring_provider \<noteq> []
   \<and> still_waiting expiring_provider 0 \<and> expired expiring_provider 1
   \<and> get_smspool_sms expiring_provider = (None, [Post, Sleep 15, Post])"
proof -
  have key: "SMSPOOL_KEY waiting_provider \<noteq> []"
    by (simp add: waiting_provider_def)
  have w: "\<forall>n. still_waiting waiting_provider n"
    by (simp add: still_waiting_def waiting_provider_def sms_field_def time_left_def)
  from get_smspool_sms_bounded[of waiting_provider] key w have
    "get_smspool_sms waiting_provider = (None, Post # concat (replicate 6 [Sleep 15, Post]))"
    by blast
  moreover have "Post # concat (replicate 6 [Sleep 15, Post]) =
      [Post, Sleep 15, Post, Sleep 15, Post, Sleep 15, Post,
       Sleep 15, Post, Sleep 15, Post, Sleep 15, Post]"
    by (simp add: numeral_eq_Suc)
  ultimately have r: "get_smspool_sms waiting_provider =
      (None, [Post, Sleep 15, Post, Sleep 15, Post, Sleep 15, Post,
              Sleep 15, Post, Sleep 15, Post, Sleep 15, Post])"
    by (simp only:)
  have key': "SMSPOOL_KEY expiring_provider \<noteq> []"
    by (simp add: expiring_provider_def)
  have w0: "still_waiting expiring_provider 0"
    by (simp add: still_waiting_def expiring_provider_def sms_field_def time_left_def)
  have e1: "expired expiring_provider 1"
    by (simp add: expired_def expiring_provider_def sms_field_def time_left_def)
  from w0 have w1: "\<forall>n<1. still_waiting expiring_provider n" by simp
  have "(1::nat) \<le> 6" by simp
  with get_smspool_sms_bounded[of expiring_provider 1] key' w1 e1 have
    "get_smspool_sms expiring_provider = (None, Post # concat (replicate 1 [Sleep 15, Post]))"
    by blast
  then have r': "get_smspool_sms expiring_provider = (None, [Post, Sleep 15, Post])"
    by simp
  from key w r key' w0 e1 r' show ?thesis by blast
qed

text \<open>
  A provider that always answers with a \<^verbatim>\<open>time_left\<close> of half a second, which is above
  0, and with no SMS: \<^verbatim>\<open>int(0.5)\<close> is 0, so the function returns \<^verbatim>\<open>None\<close> after the
  first request, without any retry.
\<close>

theorem fractional_time_left_counterexample:
  "SMSPOOL_KEY half_second_provider \<noteq> []
   \<and> (\<forall>n. requests_post half_second_provider n =
          Http 200 (Some (JObj [(''status'', JInt 1), (''time_left'', JFloat (Finite (1 / 2)))])))
   \<and> (0 :: rat) < 1 / 2
   \<and> sms_field (JObj [(''status'', JInt 1), (''time_left'', JFloat (Finite (1 / 2)))]) = Inr None
   \<and> get_smspool_sms half_second_provider = (None, [Post])"
  by (simp add: half_second_provider_def get_smspool_sms_def check_once_def sms_field_def
        time_left_def numeral_eq_Suc)

subsection \<open>Number and order id\<close>

lemma first_key_dict:
  "first_key keys (JObj kvs) JNull = Inr (first_present keys kvs)"
proof (induction keys)
  case Nil
  then show ?case by (simp add: first_present_def List.map_filter_simps)
next
  case (Cons k keys)
  show ?case
  proof (cases "map_of kvs k")
    case None
    then have "k \<notin> set (map fst kvs)" by (simp add: map_of_eq_None_iff)
    with None Cons show ?thesis by (simp add: first_present_def List.map_filter_simps)
  next
    case (Some v)
    then have "k \<in> set (map fst kvs)" by (metis map_of_eq_None_iff option.distinct(1) set_map)
    with Some show ?thesis by (simp add: first_present_def List.map_filter_simps)
  qed
qed

lemma in_result_dict: "py_in ''result'' (JObj kvs) = Inr (map_of kvs ''result'' \<noteq> None)"
  by (simp add: map_of_eq_None_iff)

lemma acquire_number_top:
  assumes "truthy (first_present [''number'', ''phone'', ''msisdn'', ''phonenumber''] kvs)"
  shows "acquire_number (JObj kvs) =
           Acquired (first_present [''number'', ''phone'', ''msisdn'', ''phonenumber''] kvs)
                    (first_present [''orderid'', ''order_id'', ''orderId'', ''id''] kvs)"
proof -
  from assms have "kvs \<noteq> []" by (auto simp: first_present_def List.map_filter_simps)
  with assms show ?thesis
    by (simp add: acquire_number_def extract_number_data_def first_key_dict)
qed

lemma acquire_number_nested:
  assumes "\<not> truthy (first_present [''number'', ''phone'', ''msisdn'', ''phonenumber''] kvs)"
    and "map_of kvs ''result'' = Some (JObj r)"
  shows "acquire_number (JObj kvs) =
           (if truthy (py_or (dict_get r ''number'') (dict_get r ''phone''))
            then Acquired (py_or (dict_get r ''number'') (dict_get r ''phone''))
                          (py_or (dict_get r ''orderid'') (dict_get r ''order_id''))
            else ReturnFalse)"
proof -
  from assms(2) have "kvs \<noteq> []" by auto
  with assms show ?thesis
    by (simp add: acquire_number_def extract_number_data_def first_key_dict in_result_dict
             del: py_in.simps)
qed

lemma acquire_number_no_result:
  assumes "\<not> truthy (first_present [''number'', ''phone'', ''msisdn'', ''phonenumber''] kvs)"
    and "\<forall>r. map_of kvs ''result'' \<noteq> Some (JObj r)"
  shows "acquire_number (JObj kvs) = ReturnFalse"
  using assms
  by (cases "map_of kvs ''result''")
     (auto simp: acquire_number_def extract_number_data_def first_key_dict in_result_dict
           simp del: py_in.simps split: json.splits)

lemma first_key_not_dict:
  assumes "\<forall>kvs. nd \<noteq> JObj kvs" "first_key keys nd JNull = Inr v"
  shows "v = JNull"
  using assms
  by (induction keys) (cases nd; auto split: sum.splits bool.splits if_splits)+

lemma acquire_number_not_dict:
  assumes "\<forall>kvs. nd \<noteq> JObj kvs"
  shows "acquire_number nd = ReturnFalse"
proof (cases "first_key [''number'', ''phone'', ''msisdn'', ''phonenumber''] nd JNull")
  case (Inl e)
  then show ?thesis
    by (simp add: acquire_number_def extract_number_data_def del: first_key.simps)
next
  case ph: (Inr ph)
  with assms have null: "ph = JNull" by (rule first_key_not_dict)
  from assms have item: "py_getitem nd ''result'' = Inl TypeError" by (cases nd) auto
  show ?thesis
  proof (cases "first_key [''orderid'', ''order_id'', ''orderId'', ''id''] nd JNull")
    case (Inl e)
    with ph show ?thesis
      by (simp add: acquire_number_def extract_number_data_def del: first_key.simps)
  next
    case (Inr oid)
    with ph null item show ?thesis
      by (simp add: acquire_number_def extract_number_data_def
               del: first_key.simps py_in.simps split: sum.splits bool.splits)
  qed
qed

text \<open>
  C8, as the code has it. At the top level of the response mapping the phone number is the
  value of the first key present among \<^verbatim>\<open>number\<close>, \<^verbatim>\<open>phone\<close>, \<^verbatim>\<open>msisdn\<close>,
  \<^verbatim>\<open>phonenumber\<close>, and the order id that of the first key present among \<^verbatim>\<open>orderid\<close>,
  \<^verbatim>\<open>order_id\<close>, \<^verbatim>\<open>orderId\<close>, \<^verbatim>\<open>id\<close>. The nested \<^verbatim>\<open>result\<close> object is looked at
  only when this gives no usable (truthy) phone number: the phone number is then the
  \<^verbatim>\<open>number\<close> of \<^verbatim>\<open>result\<close> or else its \<^verbatim>\<open>phone\<close>, and, when the top level gave no order
  id, the order id is the \<^verbatim>\<open>orderid\<close> of \<^verbatim>\<open>result\<close> or else its \<^verbatim>\<open>order_id\<close>. Every
  response in which no usable phone number is found this way, a response that is not a
  mapping included, makes the function return \<^verbatim>\<open>False\<close>; none makes it raise.
\<close>

theorem acquire_number_rules:
  "(truthy (first_present [''number'', ''phone'', ''msisdn'', ''phonenumber''] kvs) \<longrightarrow>
      acquire_number (JObj kvs) = Acquired (first_present [''number'', ''phone'', ''msisdn'', ''phonenumber''] kvs) (first_present [''orderid'', ''order_id'', ''orderId'', ''id''] kvs))
   \<and> (\<not> truthy (first_present [''number'', ''phone'', ''msisdn'', ''phonenumber''] kvs) \<and> map_of kvs ''result'' = Some (JObj r)
        \<and> truthy (py_or (dict_get r ''number'') (dict_get r ''phone'')) \<longrightarrow>
        (\<exists>order_id. acquire_number (JObj kvs)
                       = Acquired (py_or (dict_get r ''number'') (dict_get r ''phone'')) order_id
            \<and> (first_present [''orderid'', ''order_id'', ''orderId'', ''id''] kvs = JNull \<longrightarrow>
                 order_id = py_or (dict_get r ''orderid'') (dict_get r ''order_id''))))
   \<and> (\<not> truthy (first_present [''number'', ''phone'', ''msisdn'', ''phonenumber''] kvs) \<and> map_of kvs ''result'' = Some (JObj r)
        \<and> \<not> truthy (py_or (dict_get r ''number'') (dict_get r ''phone'')) \<longrightarrow>
        acquire_number (JObj kvs) = ReturnFalse)
   \<and> (\<not> truthy (first_present [''number'', ''phone'', ''msisdn'', ''phonenumber''] kvs) \<and> (\<forall>r. map_of kvs ''result'' \<noteq> Some (JObj r)) \<longrightarrow>
        acquire_number (JObj kvs) = ReturnFalse)
   \<and> ((\<forall>kvs. number_data \<noteq> JObj kvs) \<longrightarrow> acquire_number number_data = ReturnFalse)"
proof (intro conjI impI)
  assume "truthy (first_present [''number'', ''phone'', ''msisdn'', ''phonenumber''] kvs)"
  then show "acquire_number (JObj kvs) = Acquired (first_present [''number'', ''phone'', ''msisdn'', ''phonenumber''] kvs) (first_present [''orderid'', ''order_id'', ''orderId'', ''id''] kvs)"
    by (rule acquire_number_top)
next
  assume a: "\<not> truthy (first_present [''number'', ''phone'', ''msisdn'', ''phonenumber''] kvs) \<and> map_of kvs ''result'' = Some (JObj r)
        \<and> truthy (py_or (dict_get r ''number'') (dict_get r ''phone''))"
  then have "acquire_number (JObj kvs)
               = Acquired (py_or (dict_get r ''number'') (dict_get r ''phone''))
                          (py_or (dict_get r ''orderid'') (dict_get r ''order_id''))"
    by (simp add: acquire_number_nested)
  then show "\<exists>order_id. acquire_number (JObj kvs)
                       = Acquired (py_or (dict_get r ''number'') (dict_get r ''phone'')) order_id
            \<and> (first_present [''orderid'', ''order_id'', ''orderId'', ''id''] kvs = JNull \<longrightarrow>
                 order_id = py_or (dict_get r ''orderid'') (dict_get r ''order_id''))"
    by blast
next
  assume "\<not> truthy (first_present [''number'', ''phone'', ''msisdn'', ''phonenumber''] kvs) \<and> map_of kvs ''result'' = Some (JObj r)
        \<and> \<not> truthy (py_or (dict_get r ''number'') (dict_get r ''phone''))"
  then show "acquire_number (JObj kvs) = ReturnFalse"
    by (simp add: acquire_number_nested)
next
  assume "\<not> truthy (first_present [''number'', ''phone'', ''msisdn'', ''phonenumber''] kvs) \<and> (\<forall>r. map_of kvs ''result'' \<noteq> Some (JObj r))"
  then show "acquire_number (JObj kvs) = ReturnFalse"
    by (simp add: acquire_number_no_result)
next
  assume "\<forall>kvs. number_data \<noteq> JObj kvs"
  then show "acquire_number number_data = ReturnFalse"
    by (rule acquire_number_not_dict)
qed

theorem acquire_number_rules_witness:
  "acquire_number (JObj flat_response) = Acquired (JStr ''15551234567'') (JStr ''ABC123'')
   \<and> acquire_number (JObj nested_response) = Acquired (JInt 15551234567) (JStr ''XYZ789'')
   \<and> acquire_number (JObj empty_result_response) = ReturnFalse
   \<and> acquire_number (JObj refused_response) = ReturnFalse
   \<and> acquire_number (JStr ''my number'') = ReturnFalse"
proof -
  have flat: "first_present [''number'', ''phone'', ''msisdn'', ''phonenumber''] flat_response = JStr ''15551234567''"
       "first_present [''orderid'', ''order_id'', ''orderId'', ''id''] flat_response = JStr ''ABC123''"
    by (simp_all add: first_present_def flat_response_def List.map_filter_simps)
  from acquire_number_rules[of flat_response] flat
  have c1: "acquire_number (JObj flat_response) = Acquired (JStr ''15551234567'') (JStr ''ABC123'')"
    by simp
  have nested: "\<not> truthy (first_present [''number'', ''phone'', ''msisdn'', ''phonenumber''] nested_response)"
       "first_present [''orderid'', ''order_id'', ''orderId'', ''id''] nested_response = JNull"
       "map_of nested_response ''result'' = Some (JObj nested_result)"
       "py_or (dict_get nested_result ''number'') (dict_get nested_result ''phone'') = JInt 15551234567"
       "py_or (dict_get nested_result ''orderid'') (dict_get nested_result ''order_id'') = JStr ''XYZ789''"
    by (simp_all add: first_present_def nested_response_def nested_result_def
          List.map_filter_simps py_or_def dict_get_def)
  from acquire_number_rules[of nested_response nested_result] nested
  have c2: "acquire_number (JObj nested_response) = Acquired (JInt 15551234567) (JStr ''XYZ789'')"
    by auto
  have empty: "\<not> truthy (first_present [''number'', ''phone'', ''msisdn'', ''phonenumber''] empty_result_response)"
       "map_of empty_result_response ''result'' = Some (JObj [(''status'', JStr ''pending'')])"
       "\<not> truthy (py_or (dict_get [(''status'', JStr ''pending'')] ''number'')
                        (dict_get [(''status'', JStr ''pending'')] ''phone''))"
    by (simp_all add: first_present_def empty_result_response_def
          List.map_filter_simps py_or_def dict_get_def)
  from acquire_number_rules[of empty_result_response "[(''status'', JStr ''pending'')]"] empty
  have c3: "acquire_number (JObj empty_result_response) = ReturnFalse"
    by blast
  have refused: "\<not> truthy (first_present [''number'', ''phone'', ''msisdn'', ''phonenumber''] refused_response)"
       "\<forall>r. map_of refused_response ''result'' \<noteq> Some (JObj r)"
    by (simp_all add: first_present_def refused_response_def List.map_filter_simps)
  from acquire_number_rules[of refused_response] refused
  have c4: "acquire_number (JObj refused_response) = ReturnFalse"
    by blast
  have "\<forall>kvs. JStr ''my number'' \<noteq> JObj kvs" by simp
  with acquire_number_rules[of _ _ "JStr ''my number''"]
  have c5: "acquire_number (JStr ''my number'') = ReturnFalse"
    by blast
  from c1 c2 c3 c4 c5 show ?thesis by blast
qed

text \<open>
  Inside the nested \<^verbatim>\<open>result\<close> object the key \<^verbatim>\<open>msisdn\<close> is not probed, and an order
  id missing at the top level is not looked for in \<^verbatim>\<open>result\<close> once the phone number was
  found at the top level.
\<close>

theorem nested_probe_counterexample:
  "acquire_number nested_msisdn_response = ReturnFalse
   \<and> acquire_number nested_order_response = Acquired (JStr ''15551234567'') JNull"
  by (simp add: nested_msisdn_response_def nested_order_response_def acquire_number_def
        extract_number_data_def py_or_def dict_get_def)

subsection \<open>Worklist rows and profile directories\<close>

lemma strip_empty: "strip [] = []"
  by (simp add: strip_def)

lemma pad_row_short:
  assumes "length xs \<le> 4"
  shows "pad_row xs ! 4 = [] \<and> 4 < length (pad_row xs)"
  using assms by (simp add: pad_row_def Let_def nth_append)

text \<open>
  C4. A row of at most four cells is padded with an empty fifth cell; \<^verbatim>\<open>pending\<close> goes into
  the sixth. The status that \<^verbatim>\<open>main\<close> reads, \<^verbatim>\<open>row[4].strip().lower()\<close>, is then the
  empty string, not \<^verbatim>\<open>pending\<close>.
\<close>

theorem short_row_status_empty:
  "pad_row short_row =
     [''a@example.com'', ''pw-a'', ''host@example.com'', ''pw-h'', '''', ''pending'', '''']
   \<and> row_status (pad_row short_row) = Inr ''''
   \<and> row_status (pad_row short_row) \<noteq> Inr ''pending''
   \<and> (\<forall>row. row_status (pad_row (take 4 row)) = Inr '''')"
proof (intro conjI allI)
  show p: "pad_row short_row =
     [''a@example.com'', ''pw-a'', ''host@example.com'', ''pw-h'', '''', ''pending'', '''']"
    by (simp add: pad_row_def short_row_def)
  show s: "row_status (pad_row short_row) = Inr ''''"
    unfolding p by (simp add: row_status_def strip_empty lower_def)
  show "row_status (pad_row short_row) \<noteq> Inr ''pending''"
    unfolding s by simp
  show "row_status (pad_row (take 4 row)) = Inr ''''" for row
  proof -
    have "length (take 4 row) \<le> 4" by simp
    from pad_row_short[OF this] show ?thesis
      by (simp add: row_status_def strip_empty lower_def)
  qed
qed

text \<open>
  C9. Two pending rows in one batch of width 2 are both launched with the worker id
  \<^verbatim>\<open>thread_1\<close>; in one process (here 4242), when both draw the same number (here 5000),
  the two workers get the same profile directory.
\<close>

theorem same_batch_same_directory:
  "map_sum id (map (map (\<lambda>l. (gemail l, user_data_dir (worker_id l) 4242 5000))))
     (main small_int two_row_sheet)
   = Inr [[(''a@example.com'', ''/tmp/seleniumbase_user_data_thread_1_4242_5000''),
           (''b@example.com'', ''/tmp/seleniumbase_user_data_thread_1_4242_5000'')]]"
proof -
  have pending: "lower (strip ''pending'') = ''pending''"
    by (simp add: strip_def lower_def lower_char_def is_space_def)
  have strips: "strip ''a@example.com'' = ''a@example.com''" "strip ''b@example.com'' = ''b@example.com''"
    "strip ''pw-a'' = ''pw-a''" "strip ''pw-b'' = ''pw-b''" "strip ''pw-h'' = ''pw-h''"
    "strip ''host@example.com'' = ''host@example.com''" "strip ''2'' = ''2''"
    by (simp_all add: strip_def is_space_def)
  have sheet: "read_google_sheet two_row_sheet =
      Inr ([''email'', ''password'', ''instantly_email'', ''instantly_password'', ''status'',
            ''note'', ''max_parallel_tabs''],
           [[''a@example.com'', ''pw-a'', ''host@example.com'', ''pw-h'', ''pending'', '''', ''2''],
            [''b@example.com'', ''pw-b'', ''host@example.com'', ''pw-h'', ''pending'', '''', '''']])"
    by (simp add: read_google_sheet_def two_row_sheet_def pad_row_def)
  have width: "max_parallel_tabs small_int
      [''email'', ''password'', ''instantly_email'', ''instantly_password'', ''status'',
            ''note'', ''max_parallel_tabs'']
      [[''a@example.com'', ''pw-a'', ''host@example.com'', ''pw-h'', ''pending'', '''', ''2''],
       [''b@example.com'', ''pw-b'', ''host@example.com'', ''pw-h'', ''pending'', '''', '''']] = 2"
    by (simp add: max_parallel_tabs_def strips isdigit_def is_digit_def small_int_def)
  have m: "main small_int two_row_sheet =
      run_batches [0] 2
        [[''a@example.com'', ''pw-a'', ''host@example.com'', ''pw-h'', ''pending'', '''', ''2''],
         [''b@example.com'', ''pw-b'', ''host@example.com'', ''pw-h'', ''pending'', '''', '''']]"
    unfolding main_def sheet by (simp add: width del: run_batches.simps)
  have dir: "user_data_dir ''thread_1'' 4242 5000 = ''/tmp/seleniumbase_user_data_thread_1_4242_5000''"
    by (simp add: user_data_dir_def str_nat.simps)
  have one: "str_nat (Suc 0) = ''1''" by (simp add: str_nat.simps)
  show ?thesis
    unfolding m
    by (simp add: row_status_def pending strips one dir)
qed

subsection \<open>Element resolver\<close>

lemma default_content_Top: "do_default_content b d = (None, d') \<Longrightarrow> doc d' = Top"
  by (auto simp: do_default_content_def split: option.splits)

lemma search_frames_found_Top:
  "search_frames b js s fs d = (FoundInFrame, d') \<Longrightarrow> doc d' = Top"
proof (induction fs arbitrary: d)
  case Nil
  then show ?case by simp
next
  case (Cons f fs)
  then show ?case
    by (auto split: prod.splits bool.splits option.splits dest: default_content_Top)
qed





lemma static_switch_frame:
  "do_switch_frame (browser_of pg) f d =
     (True, d\<lparr>doc := Frame f, calls := Suc (calls d), trail := trail d @ [Enter f]\<rparr>)"
  by (simp add: do_switch_frame_def browser_of_def)

lemma static_default_content:
  "do_default_content (browser_of pg) d =
     (None, d\<lparr>doc := Top, calls := Suc (calls d), trail := trail d @ [Restore]\<rparr>)"
  by (simp add: do_default_content_def browser_of_def)

lemma static_wait_and_click:
  "wait_and_click (browser_of pg) js s d =
     (if clickable pg (doc d) s
      then (True, d\<lparr>calls := Suc (Suc (calls d)), trail := trail d @ [Probe (doc d) s, Clicked (doc d) s]\<rparr>)
      else (False, d\<lparr>calls := Suc (calls d), trail := trail d @ [Probe (doc d) s]\<rparr>))"
  by (simp add: wait_and_click_def browser_of_def Let_def)

lemma resolve_append:
  "resolve pg (xs @ ys) =
     (if fst (resolve pg xs) then resolve pg xs
      else (fst (resolve pg ys), snd (resolve pg xs) @ snd (resolve pg ys)))"
proof (induction xs)
  case Nil
  then show ?case by simp
next
  case (Cons x xs)
  obtain c s where x: "x = (c, s)" by (cases x)
  show ?case
  proof (cases "clickable pg c s")
    case True
    then show ?thesis by (simp add: x)
  next
    case False
    then show ?thesis using Cons.IH by (simp add: x split: prod.splits)
  qed
qed

lemma static_search_frames:
  "fst (search_frames (browser_of pg) js s fs d) =
      (if fst (resolve pg (map (\<lambda>f. (Frame f, s)) fs)) then FoundInFrame else NoFrameMatch)
   \<and> trail (snd (search_frames (browser_of pg) js s fs d)) =
        trail d @ snd (resolve pg (map (\<lambda>f. (Frame f, s)) fs))"
proof (induction fs arbitrary: d)
  case Nil
  then show ?case by simp
next
  case (Cons f fs)
  show ?case
  proof (cases "clickable pg (Frame f) s")
    case True
    then show ?thesis
      by (simp add: static_switch_frame static_default_content static_wait_and_click
            approach_def leave_def)
  next
    case False
    then show ?thesis
      by (simp add: static_switch_frame static_default_content static_wait_and_click
            approach_def leave_def Cons.IH split: prod.splits)
  qed
qed

lemma static_try_selector:
  assumes "doc d = Top"
  shows "fst (try_selector (browser_of pg) js s d) =
           (if fst (resolve pg (map (\<lambda>f. (Frame f, s)) (frames pg) @ [(Top, s)]))
            then ReturnTrue else NextSelector)
   \<and> trail (snd (try_selector (browser_of pg) js s d)) =
        trail d @ snd (resolve pg (map (\<lambda>f. (Frame f, s)) (frames pg) @ [(Top, s)]))
   \<and> doc (snd (try_selector (browser_of pg) js s d)) = Top"
proof -
  define d1 where "d1 = d\<lparr>calls := Suc (calls d)\<rparr>"
  have fi: "do_find_iframes (browser_of pg) d = (Some (frames pg), d1)"
    using assms by (simp add: do_find_iframes_def browser_of_def d1_def)
  obtain o2 d2 where sf: "search_frames (browser_of pg) js s (frames pg) d1 = (o2, d2)"
    by (cases "search_frames (browser_of pg) js s (frames pg) d1")
  from static_search_frames[of pg js s "frames pg" d1] sf
  have o2: "o2 = (if fst (resolve pg (map (\<lambda>f. (Frame f, s)) (frames pg))) then FoundInFrame else NoFrameMatch)"
    and t2: "trail d2 = trail d @ snd (resolve pg (map (\<lambda>f. (Frame f, s)) (frames pg)))"
    by (simp_all add: d1_def)
  show ?thesis
  proof (cases "fst (resolve pg (map (\<lambda>f. (Frame f, s)) (frames pg)))")
    case True
    with o2 have "o2 = FoundInFrame" by simp
    with sf have "doc d2 = Top" by (simp add: search_frames_found_Top)
    with True o2 t2 fi sf show ?thesis
      by (simp add: try_selector_def resolve_append)
  next
    case False
    with o2 have "o2 = NoFrameMatch" by simp
    with False t2 fi sf show ?thesis
      by (simp add: try_selector_def resolve_append static_default_content static_wait_and_click
            approach_def leave_def)
  qed
qed

lemma static_find_and_click_element:
  assumes "doc d = Top"
  shows "fst (find_and_click_element (browser_of pg) sels js d) = Inr (fst (resolve pg (search_order pg sels)))
   \<and> trail (snd (find_and_click_element (browser_of pg) sels js d)) =
        trail d @ snd (resolve pg (search_order pg sels))"
  using assms
proof (induction sels arbitrary: d)
  case Nil
  then show ?case by (simp add: search_order_def)
next
  case (Cons s sels)
  obtain o1 d1 where t: "try_selector (browser_of pg) js s d = (o1, d1)"
    by (cases "try_selector (browser_of pg) js s d")
  define here where "here = map (\<lambda>f. (Frame f, s)) (frames pg) @ [(Top, s)]"
  from static_try_selector[OF Cons.prems, of pg js s] t
  have o1: "o1 = (if fst (resolve pg here) then ReturnTrue else NextSelector)"
    and t1: "trail d1 = trail d @ snd (resolve pg here)"
    and top: "doc d1 = Top"
    by (simp_all add: here_def)
  have order: "search_order pg (s # sels) = here @ search_order pg sels"
    by (simp add: search_order_def here_def)
  note app = resolve_append[of pg here "search_order pg sels"]
  show ?case
  proof (cases "fst (resolve pg here)")
    case True
    with o1 t t1 app show ?thesis
      unfolding order by simp
  next
    case False
    with o1 t t1 app Cons.IH[OF top] show ?thesis
      unfolding order by simp
  qed
qed

lemma resolve_success_iff:
  "fst (resolve pg order) \<longleftrightarrow> (\<exists>(c, s)\<in>set order. clickable pg c s)"
  by (induction order) (auto split: prod.splits)

lemma search_order_set:
  "set (search_order pg selectors) =
     {(c, s). s \<in> set selectors \<and> (c = Top \<or> (\<exists>f\<in>set (frames pg). c = Frame f))}"
  by (auto simp: search_order_def)






subsection \<open>Workflow\<close>

lemma issue_prefix: "startswith (''issue: '' @ m) ''issue:''"
  by (simp add: startswith_def)

lemma statuses_update: "statuses (update_status_in_sheet email st w) = statuses w @ [st]"
  by (simp add: statuses_def update_status_in_sheet_def)

lemma statuses_quit: "statuses (snd (driver_quit s w)) = statuses w"
  by (simp add: statuses_def driver_quit_def)

lemma effects_quit: "effects (snd (driver_quit s w)) = effects w @ [Quit]"
  by (simp add: driver_quit_def)

text \<open>A step before the gates falls through without a trace, or raises after reporting issues only.\<close>

lemma guarded_cases:
  assumes "guarded r what email w = (fl, w')"
  shows "(fl = Next \<and> w' = w) \<or>
         (\<exists>e sts. fl = Raise e \<and> statuses w' = statuses w @ sts \<and> list_all (\<lambda>st. startswith st ''issue:'') sts)"
  using assms
  by (cases r) (auto simp: guarded_def Let_def statuses_update startswith_def)

lemma bare_cases:
  assumes "bare r w = (fl, w')"
  shows "(fl = Next \<and> w' = w) \<or>
         (\<exists>e sts. fl = Raise e \<and> statuses w' = statuses w @ sts \<and> list_all (\<lambda>st. startswith st ''issue:'') sts)"
  using assms by (cases r) (auto simp: bare_def)

lemma attempts_cases:
  assumes "attempts r what email ns w = (fl, w')"
  shows "(fl = Next \<and> w' = w) \<or>
         (\<exists>e sts. fl = Raise e \<and> statuses w' = statuses w @ sts \<and> list_all (\<lambda>st. startswith st ''issue:'') sts)"
  using assms
proof (induction ns)
  case Nil
  then show ?case by simp
next
  case (Cons n ns)
  show ?case
  proof (cases "r n")
    case None
    with Cons.prems show ?thesis by simp
  next
    case (Some e)
    show ?thesis
    proof (cases "caught e")
      case False
      with Some Cons.prems show ?thesis by auto
    next
      case True
      show ?thesis
      proof (cases "n = 2")
        case True
        with \<open>caught e\<close> Some Cons.prems
        have "fl = Raise (Exc OtherException (what @ '': '' @ str_exc e))"
          and "w' = update_status_in_sheet email (''issue: '' @ what @ '': '' @ str_exc e) w"
          by (simp_all add: Let_def)
        then show ?thesis by (simp add: statuses_update startswith_def)
      next
        case False
        with \<open>caught e\<close> Some Cons.prems have "attempts r what email ns w = (fl, w')" by simp
        then show ?thesis by (rule Cons.IH)
      qed
    qed
  qed
qed

lemma retried_cases:
  assumes "retried r what email w = (fl, w')"
  shows "(fl = Next \<and> w' = w) \<or>
         (\<exists>e sts. fl = Raise e \<and> statuses w' = statuses w @ sts \<and> list_all (\<lambda>st. startswith st ''issue:'') sts)"
  using assms unfolding retried_def by (rule attempts_cases)

lemma in_order_cases:
  assumes "\<forall>f\<in>set fs. \<forall>w fl w'. f w = (fl, w') \<longrightarrow>
             (fl = Next \<and> w' = w) \<or> ((\<exists>e. fl = Raise e) \<and> R w w')"
    and "in_order fs w = (fl, w')"
  shows "(fl = Next \<and> w' = w) \<or> ((\<exists>e. fl = Raise e) \<and> R w w')"
  using assms
proof (induction fs)
  case Nil
  then show ?case by simp
next
  case (Cons f fs)
  obtain fl1 w1 where f: "f w = (fl1, w1)" by (cases "f w")
  with Cons.prems(1)
  have c: "(fl1 = Next \<and> w1 = w) \<or> ((\<exists>e. fl1 = Raise e) \<and> R w w1)"
    by simp
  have rest: "\<forall>f\<in>set fs. \<forall>w fl w'. f w = (fl, w') \<longrightarrow>
             (fl = Next \<and> w' = w) \<or> ((\<exists>e. fl = Raise e) \<and> R w w')"
    using Cons.prems(1) by simp
  show ?case
  proof (cases "fl1 = Next")
    case True
    with c f Cons.prems(2) have "in_order fs w = (fl, w')" by auto
    with rest show ?thesis by (rule Cons.IH)
  next
    case False
    with c obtain e where e: "fl1 = Raise e" and r: "R w w1" by blast
    from e f Cons.prems(2) have "fl = Raise e" "w' = w1" by auto
    with r show ?thesis by blast
  qed
qed

lemma before_continue_cases:
  assumes "in_order (before_continue s email) w = (fl, w')"
  shows "(fl = Next \<and> w' = w) \<or>
         ((\<exists>e. fl = Raise e) \<and>
          (\<exists>sts. statuses w' = statuses w @ sts \<and> list_all (\<lambda>st. startswith st ''issue:'') sts))"
proof (rule in_order_cases[OF _ assms])
  show "\<forall>f\<in>set (before_continue s email). \<forall>w fl w'. f w = (fl, w') \<longrightarrow>
          (fl = Next \<and> w' = w) \<or>
          ((\<exists>e. fl = Raise e) \<and>
           (\<exists>sts. statuses w' = statuses w @ sts \<and> list_all (\<lambda>st. startswith st ''issue:'') sts))"
    unfolding before_continue_def
    using guarded_cases bare_cases retried_cases by (simp; blast)
qed

lemma in_order_append:
  "in_order (xs @ ys) w =
     (case in_order xs w of (Next, w') \<Rightarrow> in_order ys w' | (Return r, w') \<Rightarrow> (Return r, w') | (Raise e, w') \<Rightarrow> (Raise e, w'))"
  by (induction xs arbitrary: w) (auto split: prod.splits flow.splits)

lemma gate_handler_cases:
  assumes "gate_handler s what email e w = (fl, w')"
  shows "(fl = Return False \<or> (\<exists>e'. fl = Raise e')) \<and>
         (\<exists>sts. statuses w' = statuses w @ sts \<and> list_all (\<lambda>st. startswith st ''issue:'') sts
                \<and> (fl = Return False \<longrightarrow> sts \<noteq> []))"
proof (cases "caught e")
  case False
  with assms have "fl = Raise e" "w' = w" by (simp_all add: gate_handler_def)
  then show ?thesis by simp
next
  case True
  define w1 where "w1 = update_status_in_sheet email (''issue: '' @ what @ '': '' @ str_exc e) w"
  have st: "statuses (snd (driver_quit s w1)) = statuses w @ [''issue: '' @ what @ '': '' @ str_exc e]"
    by (simp add: statuses_quit w1_def statuses_update)
  have iss: "list_all (\<lambda>st. startswith st ''issue:'') [''issue: '' @ what @ '': '' @ str_exc e]"
    by (simp add: startswith_def)
  from True assms have "(fl, w') = (case driver_quit s w1 of (None, w2) \<Rightarrow> (Return False, w2)
                                      | (Some e', w2) \<Rightarrow> (Raise e', w2))"
    by (simp add: gate_handler_def Let_def w1_def)
  then have "w' = snd (driver_quit s w1)" and "fl = Return False \<or> (\<exists>e'. fl = Raise e')"
    by (auto split: prod.splits option.splits)
  with st iss show ?thesis by blast
qed

lemma continue_gate_fails:
  assumes "\<not> continue_clicked s" and "continue_gate s email w = (fl, w')"
  shows "(fl = Return False \<or> (\<exists>e'. fl = Raise e')) \<and>
         (\<exists>sts. statuses w' = statuses w @ sts \<and> list_all (\<lambda>st. startswith st ''issue:'') sts
                \<and> (fl = Return False \<longrightarrow> sts \<noteq> []))"
proof (cases "fst (find_and_click_element (gate_browser s) continue_btns True (gate_driver s))")
  case (Inl e)
  with assms(2) have "gate_handler s ''Continue button not found within 10 seconds'' email e w = (fl, w')"
    by (simp add: continue_gate_def)
  then show ?thesis by (rule gate_handler_cases)
next
  case (Inr found)
  with assms(1) have nf: "\<not> found" by (simp add: continue_clicked_def)
  define w1 where "w1 = update_status_in_sheet email
      (''issue: '' @ ''Continue button not found within 10 seconds - closing browser'') w"
  obtain q w2 where q: "driver_quit s w1 = (q, w2)" by (cases "driver_quit s w1")
  have st2: "statuses w2 = statuses w @ [''issue: '' @ ''Continue button not found within 10 seconds - closing browser'']"
    using statuses_quit[of s w1] q by (simp add: w1_def statuses_update)
  have iss: "list_all (\<lambda>st. startswith st ''issue:'')
        [''issue: '' @ ''Continue button not found within 10 seconds - closing browser'']"
    by (simp add: startswith_def)
  show ?thesis
  proof (cases q)
    case None
    with Inr nf assms(2) q have "fl = Return False" "w' = w2"
      by (simp_all add: continue_gate_def Let_def w1_def)
    with st2 iss show ?thesis by blast
  next
    case (Some e)
    with Inr nf assms(2) q
    have "gate_handler s ''Continue button not found within 10 seconds'' email e w2 = (fl, w')"
      by (simp add: continue_gate_def Let_def w1_def)
    from gate_handler_cases[OF this] obtain sts where
      fl: "fl = Return False \<or> (\<exists>e'. fl = Raise e')" and
      sts: "statuses w' = statuses w2 @ sts" "list_all (\<lambda>st. startswith st ''issue:'') sts"
      by blast
    from sts st2 iss have "statuses w' = statuses w @
        ([''issue: '' @ ''Continue button not found within 10 seconds - closing browser''] @ sts)"
      "list_all (\<lambda>st. startswith st ''issue:'')
        ([''issue: '' @ ''Continue button not found within 10 seconds - closing browser''] @ sts)"
      "[''issue: '' @ ''Continue button not found within 10 seconds - closing browser''] @ sts \<noteq> []"
      by simp_all
    with fl show ?thesis by blast
  qed
qed

lemma allow_gate_fails:
  assumes "\<not> allow_clicked s" and "allow_gate s email w = (fl, w')"
  shows "(fl = Return False \<or> (\<exists>e'. fl = Raise e')) \<and>
         (\<exists>sts. statuses w' = statuses w @ sts \<and> list_all (\<lambda>st. startswith st ''issue:'') sts
                \<and> (fl = Return False \<longrightarrow> sts \<noteq> []))"
proof -
  from assms(1) obtain e where "allow_button s = Some e" by (auto simp: allow_clicked_def)
  with assms(2) have "gate_handler s ''Allow button not found within 10 seconds'' email e w = (fl, w')"
    by (simp add: allow_gate_def)
  then show ?thesis by (rule gate_handler_cases)
qed

text \<open>The end of the function, from the end of its try block.\<close>

lemma finish:
  assumes "new_driver s = None" and "try_block s email \<lparr>effects = [], quit_calls = 0\<rparr> = (fl, w)"
  shows "fst (process_single_account s email) = (case fl of Next \<Rightarrow> True | Return r \<Rightarrow> r | Raise e \<Rightarrow> False)"
    and "statuses (snd (process_single_account s email)) =
           statuses w @ (case fl of Raise e \<Rightarrow> [''issue: '' @ str_exc e] | _ \<Rightarrow> [])"
    and "effects (snd (process_single_account s email)) \<noteq> []"
    and "last (effects (snd (process_single_account s email))) = Quit"
  using assms
  by (cases fl; simp add: process_single_account_def statuses_quit statuses_update effects_quit)+

lemma failed_run:
  assumes "new_driver s = None" and "try_block s email \<lparr>effects = [], quit_calls = 0\<rparr> = (fl, w)"
    and "fl = Return False \<or> (\<exists>e. fl = Raise e)"
    and "statuses w = sts" "list_all (\<lambda>st. startswith st ''issue:'') sts" "fl = Return False \<longrightarrow> sts \<noteq> []"
  shows "fst (process_single_account s email) = False
         \<and> statuses (snd (process_single_account s email)) \<noteq> []
         \<and> list_all (\<lambda>st. startswith st ''issue:'') (statuses (snd (process_single_account s email)))"
proof -
  note f = finish[OF assms(1,2)]
  from assms(3) show ?thesis
  proof
    assume "fl = Return False"
    with f assms(4-6) show ?thesis by simp
  next
    assume "\<exists>e. fl = Raise e"
    then obtain e where "fl = Raise e" by blast
    with f assms(4,5) show ?thesis by (simp add: startswith_def)
  qed
qed

lemma statuses_start: "statuses \<lparr>effects = [], quit_calls = 0\<rparr> = []"
  by (simp add: statuses_def)

lemma before_continue_start:
  assumes "reaches_continue s email"
  shows "in_order (before_continue s email) \<lparr>effects = [], quit_calls = 0\<rparr>
           = (Next, \<lparr>effects = [], quit_calls = 0\<rparr>)"
proof -
  obtain fl w where r: "in_order (before_continue s email) \<lparr>effects = [], quit_calls = 0\<rparr> = (fl, w)"
    by (cases "in_order (before_continue s email) \<lparr>effects = [], quit_calls = 0\<rparr>")
  with assms have "fl = Next" by (simp add: reaches_continue_def)
  with before_continue_cases[OF r] r show ?thesis by auto
qed

lemma try_block_gates:
  assumes "reaches_continue s email"
  shows "try_block s email \<lparr>effects = [], quit_calls = 0\<rparr> =
           in_order [continue_gate s email, allow_gate s email,
                     guarded (switch_back s) ''Failed to switch back to main window'' email]
             \<lparr>effects = [], quit_calls = 0\<rparr>"
  unfolding try_block_def in_order_append before_continue_start[OF assms] by simp

lemma continue_gate_clicked:
  "continue_clicked s \<Longrightarrow> continue_gate s email w = (Next, w)"
  by (simp add: continue_clicked_def continue_gate_def)

text \<open>A run that does not get through the Allow gate fails and reports issues only.\<close>

lemma not_done_run:
  assumes "\<not> (reaches_allow s email \<and> allow_clicked s)"
  shows "fst (process_single_account s email) = False
         \<and> statuses (snd (process_single_account s email)) \<noteq> []
         \<and> list_all (\<lambda>st. startswith st ''issue:'') (statuses (snd (process_single_account s email)))"
proof (cases "new_driver s")
  case (Some e)
  then show ?thesis
    by (simp add: process_single_account_def statuses_update statuses_start startswith_def)
next
  case None
  let ?w0 = "\<lparr>effects = [], quit_calls = 0\<rparr>"
  show ?thesis
  proof (cases "reaches_continue s email")
    case False
    obtain fl w where r: "in_order (before_continue s email) ?w0 = (fl, w)"
      by (cases "in_order (before_continue s email) ?w0")
    with False None have "fl \<noteq> Next" by (simp add: reaches_continue_def)
    with before_continue_cases[OF r] obtain e sts where
      fl: "fl = Raise e" and sts: "statuses w = statuses ?w0 @ sts"
        "list_all (\<lambda>st. startswith st ''issue:'') sts" by blast
    from r fl have tb: "try_block s email ?w0 = (fl, w)"
      by (simp add: try_block_def in_order_append)
    from sts have "statuses w = sts" by (simp add: statuses_start)
    with failed_run[OF None tb] fl sts(2) show ?thesis by blast
  next
    case True
    note gates = try_block_gates[OF True]
    show ?thesis
    proof (cases "continue_clicked s")
      case False
      obtain fl w where g: "continue_gate s email ?w0 = (fl, w)"
        by (cases "continue_gate s email ?w0")
      from continue_gate_fails[OF False g] obtain sts where
        fl: "fl = Return False \<or> (\<exists>e'. fl = Raise e')" and
        sts: "statuses w = statuses ?w0 @ sts" "list_all (\<lambda>st. startswith st ''issue:'') sts"
             "fl = Return False \<longrightarrow> sts \<noteq> []" by blast
      from fl g have tb: "try_block s email ?w0 = (fl, w)"
        unfolding gates by auto
      from sts have "statuses w = sts" by (simp add: statuses_start)
      with failed_run[OF None tb fl] sts(2,3) show ?thesis by blast
    next
      case clicked: True
      with True assms have na: "\<not> allow_clicked s" by (simp add: reaches_allow_def)
      obtain fl w where g: "allow_gate s email ?w0 = (fl, w)"
        by (cases "allow_gate s email ?w0")
      from allow_gate_fails[OF na g] obtain sts where
        fl: "fl = Return False \<or> (\<exists>e'. fl = Raise e')" and
        sts: "statuses w = statuses ?w0 @ sts" "list_all (\<lambda>st. startswith st ''issue:'') sts"
             "fl = Return False \<longrightarrow> sts \<noteq> []" by blast
      from fl g have tb: "try_block s email ?w0 = (fl, w)"
        unfolding gates by (auto simp: continue_gate_clicked[OF clicked])
      from sts have "statuses w = sts" by (simp add: statuses_start)
      with failed_run[OF None tb fl] sts(2,3) show ?thesis by blast
    qed
  qed
qed

lemma done_run:
  assumes "reaches_allow s email" "allow_clicked s"
  shows "statuses (snd (process_single_account s email)) =
           ''done'' # (case switch_back s of
                         None \<Rightarrow> []
                       | Some e \<Rightarrow> [''issue: Failed to switch back to main window: '' @ str_exc e,
                                    ''issue: Failed to switch back to main window: '' @ str_exc e])"
    and "fst (process_single_account s email) = (switch_back s = None)"
proof -
  let ?w0 = "\<lparr>effects = [], quit_calls = 0\<rparr>"
  from assms(1) have rc: "reaches_continue s email" and cc: "continue_clicked s"
    by (simp_all add: reaches_allow_def)
  from rc have nd: "new_driver s = None" by (simp add: reaches_continue_def)
  from assms(2) have ab: "allow_button s = None" by (simp add: allow_clicked_def)
  define w1 where "w1 = update_status_in_sheet email ''done'' ?w0"
  have tb: "try_block s email ?w0 =
      (case guarded (switch_back s) ''Failed to switch back to main window'' email w1 of
         (Next, w') \<Rightarrow> (Next, w') | (Return r, w') \<Rightarrow> (Return r, w') | (Raise e, w') \<Rightarrow> (Raise e, w'))"
    unfolding try_block_gates[OF rc]
    by (simp add: continue_gate_clicked[OF cc] allow_gate_def ab w1_def
          split: prod.splits flow.splits)
  have s1: "statuses w1 = [''done'']" by (simp add: w1_def statuses_update statuses_start)
  show "statuses (snd (process_single_account s email)) =
           ''done'' # (case switch_back s of
                         None \<Rightarrow> []
                       | Some e \<Rightarrow> [''issue: Failed to switch back to main window: '' @ str_exc e,
                                    ''issue: Failed to switch back to main window: '' @ str_exc e])"
  proof (cases "switch_back s")
    case None
    with tb have "try_block s email ?w0 = (Next, w1)" by (simp add: guarded_def)
    from finish(2)[OF nd this] s1 None show ?thesis by simp
  next
    case (Some e)
    with tb have "try_block s email ?w0 =
        (Raise (Exc OtherException (''Failed to switch back to main window'' @ '': '' @ str_exc e)),
         update_status_in_sheet email
           (''issue: '' @ ''Failed to switch back to main window'' @ '': '' @ str_exc e) w1)"
      by (simp add: guarded_def Let_def)
    from finish(2)[OF nd this] s1 Some show ?thesis
      by (simp add: statuses_update str_exc_def)
  qed
  show "fst (process_single_account s email) = (switch_back s = None)"
  proof (cases "switch_back s")
    case None
    with tb have "try_block s email ?w0 = (Next, w1)" by (simp add: guarded_def)
    from finish(1)[OF nd this] None show ?thesis by simp
  next
    case (Some e)
    with tb have "try_block s email ?w0 =
        (Raise (Exc OtherException (''Failed to switch back to main window'' @ '': '' @ str_exc e)),
         update_status_in_sheet email
           (''issue: '' @ ''Failed to switch back to main window'' @ '': '' @ str_exc e) w1)"
      by (simp add: guarded_def Let_def)
    from finish(1)[OF nd this] Some show ?thesis by simp
  qed
qed

lemma happy_reaches_continue: "reaches_continue happy_site email"
  by (simp add: reaches_continue_def happy_site_def before_continue_def bare_def guarded_def
        retried_def)

lemma continue_btns_first:
  "''//button[span[text()=\"Continue\"]]'' \<in> set continue_btns"
  by (simp add: continue_btns_def)

lemma happy_continue_clicked: "continue_clicked happy_site"
proof -
  define pg where "pg = \<lparr>frames = [], clickable = (\<lambda>c selector. c = Top)\<rparr>"
  have top: "doc top_driver = Top" by (simp add: top_driver_def)
  have "\<exists>s\<in>set continue_btns. clickable pg Top s"
    using continue_btns_first by (auto simp: pg_def)
  then have "fst (resolve pg (search_order pg continue_btns))"
    unfolding resolve_success_iff search_order_set by auto
  with static_find_and_click_element[OF top, of pg continue_btns True]
  have "fst (find_and_click_element (browser_of pg) continue_btns True top_driver) = Inr True"
    by simp
  moreover have "gate_browser happy_site = browser_of pg" "gate_driver happy_site = top_driver"
    by (simp_all add: happy_site_def pg_def)
  ultimately show ?thesis by (simp add: continue_clicked_def)
qed

lemma timeout_reaches_continue: "reaches_continue continue_timeout_site email"
  by (simp add: reaches_continue_def continue_timeout_site_def happy_site_def before_continue_def
        bare_def guarded_def retried_def)

lemma timeout_not_found:
  "fst (find_and_click_element (gate_browser continue_timeout_site) continue_btns True
         (gate_driver continue_timeout_site)) = Inr False"
proof -
  define pg where "pg = \<lparr>frames = [], clickable = (\<lambda>c selector. False)\<rparr>"
  have top: "doc top_driver = Top" by (simp add: top_driver_def)
  have "\<not> fst (resolve pg (search_order pg continue_btns))"
    unfolding resolve_success_iff by (simp add: pg_def)
  with static_find_and_click_element[OF top, of pg continue_btns True]
  have "fst (find_and_click_element (browser_of pg) continue_btns True top_driver) = Inr False"
    by simp
  moreover have "gate_browser continue_timeout_site = browser_of pg"
    "gate_driver continue_timeout_site = top_driver"
    by (simp_all add: continue_timeout_site_def happy_site_def pg_def)
  ultimately show ?thesis by simp
qed

lemma timeout_not_clicked: "\<not> continue_clicked continue_timeout_site"
  by (simp add: continue_clicked_def timeout_not_found)

lemma timeout_run:
  "process_single_account continue_timeout_site email =
     (False, \<lparr>effects = [Status email ''issue: Continue button not found within 10 seconds - closing browser'',
                         Quit, Quit],
              quit_calls = 2\<rparr>)"
proof -
  have q: "quit continue_timeout_site = (\<lambda>n. None)" "new_driver continue_timeout_site = None"
    by (simp_all add: continue_timeout_site_def happy_site_def)
  show ?thesis
    by (simp add: process_single_account_def try_block_gates[OF timeout_reaches_continue]
          continue_gate_def timeout_not_found driver_quit_def update_status_in_sheet_def q)
qed

lemma allow_timeout_reaches_allow: "reaches_allow allow_timeout_site email"
proof -
  have "reaches_continue allow_timeout_site email"
    by (simp add: reaches_continue_def allow_timeout_site_def happy_site_def before_continue_def
          bare_def guarded_def retried_def)
  moreover have "continue_clicked allow_timeout_site"
    using happy_continue_clicked by (simp add: continue_clicked_def allow_timeout_site_def)
  ultimately show ?thesis by (simp add: reaches_allow_def)
qed

lemma allow_timeout_run:
  "process_single_account allow_timeout_site email =
     (False, \<lparr>effects = [Status email ''issue: Allow button not found within 10 seconds: Message: timed out'',
                         Quit, Quit],
              quit_calls = 2\<rparr>)"
proof -
  have q: "quit allow_timeout_site = (\<lambda>n. None)" "new_driver allow_timeout_site = None"
    "allow_button allow_timeout_site = Some (Exc TimeoutException ''Message: timed out'')"
    by (simp_all add: allow_timeout_site_def happy_site_def)
  from allow_timeout_reaches_allow[of email]
  have rc: "reaches_continue allow_timeout_site email" and cc: "continue_clicked allow_timeout_site"
    by (simp_all add: reaches_allow_def)
  show ?thesis
    by (simp add: process_single_account_def try_block_gates[OF rc] continue_gate_clicked[OF cc]
          allow_gate_def gate_handler_def caught_def str_exc_def driver_quit_def
          update_status_in_sheet_def q)
qed

lemma switch_back_reaches_allow: "reaches_allow switch_back_site email"
proof -
  have "reaches_continue switch_back_site email"
    by (simp add: reaches_continue_def switch_back_site_def happy_site_def before_continue_def
          bare_def guarded_def retried_def)
  moreover have "continue_clicked switch_back_site"
    using happy_continue_clicked by (simp add: continue_clicked_def switch_back_site_def)
  ultimately show ?thesis by (simp add: reaches_allow_def)
qed

lemma switch_back_allow_clicked: "allow_clicked switch_back_site"
  by (simp add: allow_clicked_def switch_back_site_def happy_site_def)

text \<open>
  C2. When the run reaches the Continue gate and Continue is not clicked, or reaches the
  Allow gate and Allow is not clicked, the function returns \<^verbatim>\<open>False\<close>,
  \<^verbatim>\<open>driver.quit()\<close> has been called before it returns, at least one status has been
  reported and every status reported starts with \<^verbatim>\<open>issue:\<close>. On every path of a run
  whose driver was made, whether it succeeds or fails, the last thing the function does is
  the call of \<^verbatim>\<open>driver.quit()\<close> in its \<^verbatim>\<open>finally\<close> clause.
\<close>

theorem gates_tear_down:
  "(reaches_continue s email \<and> \<not> continue_clicked s \<longrightarrow>
      fst (process_single_account s email) = False
      \<and> Quit \<in> set (effects (snd (process_single_account s email)))
      \<and> statuses (snd (process_single_account s email)) \<noteq> []
      \<and> list_all (\<lambda>st. startswith st ''issue:'') (statuses (snd (process_single_account s email))))
   \<and> (reaches_allow s email \<and> \<not> allow_clicked s \<longrightarrow>
      fst (process_single_account s email) = False
      \<and> Quit \<in> set (effects (snd (process_single_account s email)))
      \<and> statuses (snd (process_single_account s email)) \<noteq> []
      \<and> list_all (\<lambda>st. startswith st ''issue:'') (statuses (snd (process_single_account s email))))
   \<and> (new_driver s = None \<longrightarrow>
        effects (snd (process_single_account s email)) \<noteq> []
        \<and> last (effects (snd (process_single_account s email))) = Quit)"
proof -
  have cleanup: "effects (snd (process_single_account s email)) \<noteq> []
        \<and> last (effects (snd (process_single_account s email))) = Quit"
    if nd: "new_driver s = None"
  proof -
    obtain fl w where tb: "try_block s email \<lparr>effects = [], quit_calls = 0\<rparr> = (fl, w)"
      by (cases "try_block s email \<lparr>effects = [], quit_calls = 0\<rparr>")
    from finish(3,4)[OF nd tb] show ?thesis by simp
  qed
  have quit_called: "Quit \<in> set (effects (snd (process_single_account s email)))"
    if nd: "new_driver s = None"
    using cleanup[OF nd] last_in_set by metis
  show ?thesis
  proof (intro conjI impI)
    assume a: "reaches_continue s email \<and> \<not> continue_clicked s"
    then have n: "\<not> (reaches_allow s email \<and> allow_clicked s)" by (simp add: reaches_allow_def)
    from a have nd: "new_driver s = None" by (simp add: reaches_continue_def)
    from not_done_run[OF n] show "fst (process_single_account s email) = False" by simp
    from quit_called[OF nd] show "Quit \<in> set (effects (snd (process_single_account s email)))" .
    from not_done_run[OF n] show "statuses (snd (process_single_account s email)) \<noteq> []" by simp
    from not_done_run[OF n]
    show "list_all (\<lambda>st. startswith st ''issue:'') (statuses (snd (process_single_account s email)))"
      by simp
  next
    assume a: "reaches_allow s email \<and> \<not> allow_clicked s"
    then have n: "\<not> (reaches_allow s email \<and> allow_clicked s)" by simp
    from a have nd: "new_driver s = None" by (simp add: reaches_allow_def reaches_continue_def)
    from not_done_run[OF n] show "fst (process_single_account s email) = False" by simp
    from quit_called[OF nd] show "Quit \<in> set (effects (snd (process_single_account s email)))" .
    from not_done_run[OF n] show "statuses (snd (process_single_account s email)) \<noteq> []" by simp
    from not_done_run[OF n]
    show "list_all (\<lambda>st. startswith st ''issue:'') (statuses (snd (process_single_account s email)))"
      by simp
  next
    assume nd: "new_driver s = None"
    from cleanup[OF nd] show "effects (snd (process_single_account s email)) \<noteq> []" by simp
    from cleanup[OF nd] show "last (effects (snd (process_single_account s email))) = Quit" by simp
  qed
qed

theorem gates_tear_down_witness:
  "reaches_continue continue_timeout_site ''a@example.com''
   \<and> \<not> continue_clicked continue_timeout_site
   \<and> fst (process_single_account continue_timeout_site ''a@example.com'') = False
   \<and> Quit \<in> set (effects (snd (process_single_account continue_timeout_site ''a@example.com'')))
   \<and> statuses (snd (process_single_account continue_timeout_site ''a@example.com''))
       = [''issue: Continue button not found within 10 seconds - closing browser'']
   \<and> reaches_allow allow_timeout_site ''a@example.com''
   \<and> \<not> allow_clicked allow_timeout_site
   \<and> fst (process_single_account allow_timeout_site ''a@example.com'') = False
   \<and> Quit \<in> set (effects (snd (process_single_account allow_timeout_site ''a@example.com'')))
   \<and> statuses (snd (process_single_account allow_timeout_site ''a@example.com''))
       = [''issue: Allow button not found within 10 seconds: Message: timed out'']
   \<and> new_driver allow_timeout_site = None
   \<and> last (effects (snd (process_single_account allow_timeout_site ''a@example.com''))) = Quit"
proof -
  let ?e = "''a@example.com''"
  have h1: "reaches_continue continue_timeout_site ?e \<and> \<not> continue_clicked continue_timeout_site"
    by (simp add: timeout_reaches_continue timeout_not_clicked)
  have "\<not> allow_clicked allow_timeout_site"
    by (simp add: allow_clicked_def allow_timeout_site_def)
  with allow_timeout_reaches_allow
  have h2: "reaches_allow allow_timeout_site ?e \<and> \<not> allow_clicked allow_timeout_site"
    by blast
  have h3: "new_driver allow_timeout_site = None"
    by (simp add: allow_timeout_site_def happy_site_def)
  from gates_tear_down[of continue_timeout_site ?e] h1
  have c1: "fst (process_single_account continue_timeout_site ?e) = False"
       "Quit \<in> set (effects (snd (process_single_account continue_timeout_site ?e)))"
    by blast+
  from gates_tear_down[of allow_timeout_site ?e] h2 h3
  have c2: "fst (process_single_account allow_timeout_site ?e) = False"
       "Quit \<in> set (effects (snd (process_single_account allow_timeout_site ?e)))"
       "last (effects (snd (process_single_account allow_timeout_site ?e))) = Quit"
    by blast+
  have s1: "statuses (snd (process_single_account continue_timeout_site ?e))
       = [''issue: Continue button not found within 10 seconds - closing browser'']"
    by (simp add: timeout_run statuses_def)
  have s2: "statuses (snd (process_single_account allow_timeout_site ?e))
       = [''issue: Allow button not found within 10 seconds: Message: timed out'']"
    by (simp add: allow_timeout_run statuses_def)
  from h1 h2 h3 c1 c2 s1 s2 show ?thesis by blast
qed

text \<open>
  C1, as the code has it. When the run reaches the Allow gate and Allow is clicked,
  \<^verbatim>\<open>done\<close> is the first status reported; it is the only one, and the function returns
  \<^verbatim>\<open>True\<close>, when the switch back to the main window succeeds, and it is followed by the
  issue of that step, reported twice, when the switch fails. \<^verbatim>\<open>done\<close> is reported in
  a run exactly when the run reaches the Allow gate and Allow is clicked.
\<close>

theorem done_after_allow:
  "(reaches_allow s email \<and> allow_clicked s \<longrightarrow>
      statuses (snd (process_single_account s email)) =
        ''done'' # (case switch_back s of
                      None \<Rightarrow> []
                    | Some e \<Rightarrow> [''issue: Failed to switch back to main window: '' @ str_exc e,
                                 ''issue: Failed to switch back to main window: '' @ str_exc e])
      \<and> fst (process_single_account s email) = (switch_back s = None))
   \<and> (''done'' \<in> set (statuses (snd (process_single_account s email)))
        \<longleftrightarrow> reaches_allow s email \<and> allow_clicked s)"
proof (intro conjI impI)
  assume a: "reaches_allow s email \<and> allow_clicked s"
  then have ra: "reaches_allow s email" and ac: "allow_clicked s" by simp_all
  from done_run(1)[OF ra ac]
  show "statuses (snd (process_single_account s email)) =
        ''done'' # (case switch_back s of
                      None \<Rightarrow> []
                    | Some e \<Rightarrow> [''issue: Failed to switch back to main window: '' @ str_exc e,
                                 ''issue: Failed to switch back to main window: '' @ str_exc e])" .
  from done_run(2)[OF ra ac]
  show "fst (process_single_account s email) = (switch_back s = None)" .
next
  show "''done'' \<in> set (statuses (snd (process_single_account s email)))
        \<longleftrightarrow> reaches_allow s email \<and> allow_clicked s"
  proof
    assume d: "''done'' \<in> set (statuses (snd (process_single_account s email)))"
    show "reaches_allow s email \<and> allow_clicked s"
    proof (rule ccontr)
      assume "\<not> (reaches_allow s email \<and> allow_clicked s)"
      from not_done_run[OF this]
      have "list_all (\<lambda>st. startswith st ''issue:'') (statuses (snd (process_single_account s email)))"
        by simp
      with d have "startswith ''done'' ''issue:''" by (simp add: list_all_iff)
      then show False by (simp add: startswith_def)
    qed
  next
    assume "reaches_allow s email \<and> allow_clicked s"
    then have ra: "reaches_allow s email" and ac: "allow_clicked s" by simp_all
    from done_run(1)[OF ra ac] show "''done'' \<in> set (statuses (snd (process_single_account s email)))"
      by simp
  qed
qed

theorem done_after_allow_witness:
  "reaches_allow happy_site ''a@example.com'' \<and> allow_clicked happy_site
   \<and> statuses (snd (process_single_account happy_site ''a@example.com'')) = [''done'']
   \<and> fst (process_single_account happy_site ''a@example.com'') = True
   \<and> ''done'' \<notin> set (statuses (snd (process_single_account allow_timeout_site ''a@example.com'')))"
proof -
  let ?e = "''a@example.com''"
  have "allow_clicked happy_site"
    by (simp add: allow_clicked_def happy_site_def)
  with happy_reaches_continue happy_continue_clicked
  have h: "reaches_allow happy_site ?e \<and> allow_clicked happy_site"
    by (simp add: reaches_allow_def)
  have sb: "switch_back happy_site = None" by (simp add: happy_site_def)
  from done_after_allow[of happy_site ?e] h sb
  have c: "statuses (snd (process_single_account happy_site ?e)) = [''done'']"
          "fst (process_single_account happy_site ?e) = True"
    by simp_all
  have "\<not> allow_clicked allow_timeout_site"
    by (simp add: allow_clicked_def allow_timeout_site_def)
  with done_after_allow[of allow_timeout_site ?e]
  have n: "''done'' \<notin> set (statuses (snd (process_single_account allow_timeout_site ?e)))"
    by blast
  from h c n show ?thesis by blast
qed

text \<open>
  After Allow was clicked and \<^verbatim>\<open>done\<close> reported, a failure of the switch back to the
  main window reports an issue for the same account.
\<close>

theorem done_then_issue_counterexample:
  "reaches_allow switch_back_site ''a@example.com'' \<and> allow_clicked switch_back_site
   \<and> statuses (snd (process_single_account switch_back_site ''a@example.com'')) =
       [''done'',
        ''issue: Failed to switch back to main window: no such window'',
        ''issue: Failed to switch back to main window: no such window'']
   \<and> fst (process_single_account switch_back_site ''a@example.com'') = False"
proof -
  have sb: "switch_back switch_back_site = Some (Exc OtherException ''no such window'')"
    by (simp add: switch_back_site_def)
  from done_run[OF switch_back_reaches_allow switch_back_allow_clicked, of "''a@example.com''"] sb
  have "statuses (snd (process_single_account switch_back_site ''a@example.com'')) =
       [''done'',
        ''issue: Failed to switch back to main window: no such window'',
        ''issue: Failed to switch back to main window: no such window'']"
    and "fst (process_single_account switch_back_site ''a@example.com'') = False"
    by (simp_all add: str_exc_def)
  with switch_back_reaches_allow switch_back_allow_clicked show ?thesis by blast
qed

end
